theory Spec2Isabelle
  imports Main
begin

unbundle bit_operations_syntax

section \<open>The buddy allocator of buddy.c\<close>

text \<open>
  The translation unit \<^verbatim>\<open>buddy.c\<close> keeps three global objects: the arena
  \<^verbatim>\<open>g_memory\<close>, the page descriptor table \<^verbatim>\<open>g_pages\<close> and the array of
  free-list heads \<^verbatim>\<open>free_area\<close>. They are the fields of the record \<open>buddy\<close>; every C
  function becomes a function that takes the state and returns the new one.

  A C \<^verbatim>\<open>int\<close> is 32 bits wide. Wherever the C program has no defined result (division
  by zero, a shift that leaves the range of \<^verbatim>\<open>int\<close>, a load through the null pointer, an
  array index outside its array) the model returns a \<open>fault\<close>.
\<close>

subsection \<open>Constants and values\<close>

datatype fault =
    DivisionByZero
  | ShiftOutOfRange
  | NullDereference
  | OutOfBounds
  | WildPointer

definition MIN_ORDER :: int where
  "MIN_ORDER = 12"

definition MAX_ORDER :: int where
  "MAX_ORDER = 20"

definition PAGE_SIZE :: nat where
  "PAGE_SIZE = 2 ^ nat MIN_ORDER"

text \<open>The number of elements of \<^verbatim>\<open>g_pages\<close>: \<^verbatim>\<open>(1<<MAX_ORDER)/PAGE_SIZE\<close>.\<close>

definition N_PAGES :: nat where
  "N_PAGES = 2 ^ nat MAX_ORDER div PAGE_SIZE"

text \<open>
  A \<^verbatim>\<open>void *\<close> of the program is the null pointer or an address inside the arena;
  \<open>Arena off\<close> stands for \<^verbatim>\<open>g_memory + off\<close>. Address arithmetic on any other
  pointer depends on where the linker puts \<^verbatim>\<open>g_memory\<close> and is the fault
  \<open>WildPointer\<close>.
\<close>

datatype ptr = NULL | Arena nat

text \<open>
  \<^verbatim>\<open>page_t\<close>. Its member \<^verbatim>\<open>list\<close> (the links of the intrusive list) is
  represented by the free lists of the state: a page is linked exactly when its index
  occurs in one of them.
\<close>

record page_t =
  addr :: ptr
  order :: int
  index :: int

text \<open>
  Modelled from the spec: \<^verbatim>\<open>list.h\<close>, the intrusive circular doubly-linked list the
  free lists are built from (the list library the header comment of \<^verbatim>\<open>buddy.c\<close>
  points to), is not among the sources. A list head of static storage that
  \<^verbatim>\<open>INIT_LIST_HEAD\<close> never touched has null links (\<open>Zeroed\<close>); an initialised head
  is modelled by the indices of the pages linked after it, first entry first
  (\<open>Linked\<close>). \<^verbatim>\<open>list_add\<close> inserts right after the head, \<^verbatim>\<open>list_del\<close> unlinks an
  entry from the list that holds it, \<^verbatim>\<open>list_empty\<close> tests \<^verbatim>\<open>head->next == head\<close>.
\<close>

datatype list_head = Zeroed | Linked "nat list"

record buddy =
  free_area :: "list_head list"
  g_memory :: "char list"
  g_pages :: "page_t list"

fun entries :: "list_head \<Rightarrow> nat list" where
  "entries Zeroed = []"
| "entries (Linked xs) = xs"

fun list_empty :: "list_head \<Rightarrow> bool" where
  "list_empty Zeroed = False"
| "list_empty (Linked xs) = (xs = [])"

text \<open>\<^verbatim>\<open>list_add(&g_pages[p].list, &free_area[k])\<close>.\<close>

definition list_add :: "nat \<Rightarrow> int \<Rightarrow> buddy \<Rightarrow> fault + buddy" where
  "list_add p k s =
     (if k < 0 \<or> \<not> nat k < length (free_area s) then Inl OutOfBounds
      else (case free_area s ! nat k of
              Zeroed \<Rightarrow> Inl NullDereference
            | Linked xs \<Rightarrow> Inr (s\<lparr>free_area := (free_area s)[nat k := Linked (p # xs)]\<rparr>)))"

fun unlink :: "nat \<Rightarrow> list_head \<Rightarrow> list_head" where
  "unlink p Zeroed = Zeroed"
| "unlink p (Linked xs) = Linked (removeAll p xs)"

text \<open>\<^verbatim>\<open>list_del(&g_pages[p].list)\<close>.\<close>

definition list_del :: "nat \<Rightarrow> buddy \<Rightarrow> buddy" where
  "list_del p s = s\<lparr>free_area := map (unlink p) (free_area s)\<rparr>"

text \<open>The assignment \<^verbatim>\<open>g_pages[i].order = k\<close>, for an index inside the table.\<close>

definition set_order :: "nat \<Rightarrow> int \<Rightarrow> buddy \<Rightarrow> buddy" where
  "set_order i k s = s\<lparr>g_pages := (g_pages s)[i := (g_pages s ! i)\<lparr>order := k\<rparr>]\<rparr>"

definition PAGE_TO_ADDR :: "nat \<Rightarrow> ptr" where
  "PAGE_TO_ADDR page_idx = Arena (page_idx * PAGE_SIZE)"

fun ADDR_TO_PAGE :: "ptr \<Rightarrow> fault + nat" where
  "ADDR_TO_PAGE NULL = Inl WildPointer"
| "ADDR_TO_PAGE (Arena off) = Inr (off div PAGE_SIZE)"

text \<open>\<^verbatim>\<open>1<<k\<close> on \<^verbatim>\<open>int\<close>: defined for \<open>0 \<le> k \<le> 30\<close>.\<close>

definition shl1 :: "int \<Rightarrow> fault + int" where
  "shl1 k = (if k < 0 \<or> 31 \<le> k then Inl ShiftOutOfRange else Inr (2 ^ nat k))"

fun BUDDY_ADDR :: "ptr \<Rightarrow> int \<Rightarrow> fault + ptr" where
  "BUDDY_ADDR NULL k = Inl WildPointer"
| "BUDDY_ADDR (Arena off) k =
     (case shl1 k of
        Inl f \<Rightarrow> Inl f
      | Inr b \<Rightarrow> Inr (Arena (off XOR nat b)))"

subsection \<open>getOrder\<close>

text \<open>
  The parameter \<^verbatim>\<open>size\<close> is written \<open>sz\<close>. Division of C: the quotient is truncated
  towards zero.
\<close>

definition c_div :: "int \<Rightarrow> int \<Rightarrow> int" where
  "c_div a b = sgn a * sgn b * (\<bar>a\<bar> div \<bar>b\<bar>)"

function getOrder_loop :: "int \<Rightarrow> int \<Rightarrow> fault + int" where
  "getOrder_loop sz k =
     (case shl1 k of
        Inl f \<Rightarrow> Inl f
      | Inr b \<Rightarrow>
          if sz = 0 then Inl DivisionByZero
          else if c_div b sz < 1 then getOrder_loop sz (k + 1)
          else Inr k)"
  by pat_completeness auto
termination
  by (relation "measure (\<lambda>(sz, k). nat (31 - k))")
     (auto simp: shl1_def split: if_splits)

definition getOrder :: "int \<Rightarrow> fault + int" where
  "getOrder sz =
     (case getOrder_loop sz MIN_ORDER of
        Inl f \<Rightarrow> Inl f
      | Inr k \<Rightarrow> if k > MAX_ORDER then Inr (- 1) else Inr k)"

subsection \<open>splitBlock\<close>

text \<open>
  The parameter \<^verbatim>\<open>head\<close> of \<^verbatim>\<open>splitBlock\<close> is never used and is left out. On each
  level the order of the left block is stored first, then the page of the right block is
  found from the buddy address of the left one at the new order.
\<close>

function splitBlock :: "buddy \<Rightarrow> int \<Rightarrow> int \<Rightarrow> nat \<Rightarrow> fault + ptr \<times> buddy" where
  "splitBlock s currentOrder endOrder blockStartIndex =
     (if \<not> blockStartIndex < length (g_pages s) then Inl OutOfBounds
      else if currentOrder = endOrder then
        Inr (addr (g_pages s ! blockStartIndex), list_del blockStartIndex s)
      else
        let newOrder = currentOrder - 1;
            s1 = set_order blockStartIndex newOrder s
        in (case BUDDY_ADDR (addr (g_pages s1 ! blockStartIndex)) newOrder of
              Inl f \<Rightarrow> Inl f
            | Inr b \<Rightarrow>
               (case ADDR_TO_PAGE b of
                  Inl f \<Rightarrow> Inl f
                | Inr rightBlockIndex \<Rightarrow>
                    if \<not> rightBlockIndex < length (g_pages s1) then Inl OutOfBounds
                    else
                      let s2 = set_order rightBlockIndex newOrder s1;
                          s3 = list_del blockStartIndex s2
                      in (case list_add rightBlockIndex newOrder s3 of
                            Inl f \<Rightarrow> Inl f
                          | Inr s4 \<Rightarrow>
                             (case list_add blockStartIndex newOrder s4 of
                                Inl f \<Rightarrow> Inl f
                              | Inr s5 \<Rightarrow>
                                  splitBlock s5 newOrder endOrder blockStartIndex)))))"
  by pat_completeness auto
termination
proof (relation "measure (\<lambda>(s, currentOrder, endOrder, blockStartIndex). nat currentOrder)",
    goal_cases)
  case 1
  show ?case by simp
next
  case (2 s currentOrder endOrder blockStartIndex newOrder s1 b)
  from 2 have "0 \<le> newOrder"
    by (cases "addr (g_pages s1 ! blockStartIndex)")
       (auto simp: shl1_def split: if_splits sum.splits)
  with 2 show ?case by simp
qed

subsection \<open>buddy\_init\<close>

text \<open>The objects of static storage as the program finds them when it starts: all zero.\<close>

definition startup :: buddy where
  "startup =
     \<lparr>free_area = replicate (nat MAX_ORDER + 1) Zeroed,
      g_memory = replicate (2 ^ nat MAX_ORDER) (CHR 0x00),
      g_pages = replicate N_PAGES \<lparr>addr = NULL, order = 0, index = 0\<rparr>\<rparr>"

definition buddy_init :: "buddy \<Rightarrow> fault + buddy" where
  "buddy_init s =
     (let n_pages = 2 ^ nat MAX_ORDER div PAGE_SIZE;
          s1 = s\<lparr>g_pages :=
                  fold (\<lambda>i ps. ps[i := \<lparr>addr = PAGE_TO_ADDR i, order = - 1, index = int i\<rparr>])
                    [0..<n_pages] (g_pages s)\<rparr>;
          s2 = s1\<lparr>free_area :=
                  fold (\<lambda>i fa. fa[i := Linked []])
                    [nat MIN_ORDER..<Suc (nat MAX_ORDER)] (free_area s1)\<rparr>
      in (case list_add 0 MAX_ORDER s2 of
            Inl f \<Rightarrow> Inl f
          | Inr s3 \<Rightarrow>
              if \<not> 0 < length (g_pages s3) then Inl OutOfBounds
              else Inr (set_order 0 MAX_ORDER s3)))"

subsection \<open>buddy\_alloc\<close>

text \<open>
  The \<^verbatim>\<open>for\<close> loop of \<^verbatim>\<open>buddy_alloc\<close>. When the list of order \<^verbatim>\<open>MAX_ORDER\<close> is
  empty the body stores \<open>- 1\<close>, the increment of the loop makes it \<open>0\<close>, and the loop
  goes on from order \<open>0\<close>. The loop need not end, so its result is an option.
\<close>

partial_function (option) find_free :: "list_head list \<Rightarrow> int \<Rightarrow> (fault + int) option" where
  "find_free fa freeOrder =
     (if freeOrder \<le> MAX_ORDER then
        (if freeOrder < 0 \<or> \<not> nat freeOrder < length fa then Some (Inl OutOfBounds)
         else if \<not> list_empty (fa ! nat freeOrder) then Some (Inr freeOrder)
         else if freeOrder = MAX_ORDER then find_free fa (- 1 + 1)
         else find_free fa (freeOrder + 1))
      else Some (Inr freeOrder))"

text \<open>
  \<^verbatim>\<open>list_entry(free_area[freeOrder].next, page_t, list)\<close>: the first entry of the
  list. The link of a head that was never initialised is null, and the link of an empty
  list is the head itself, which is no page.
\<close>

fun first_entry :: "list_head \<Rightarrow> fault + nat" where
  "first_entry Zeroed = Inl NullDereference"
| "first_entry (Linked []) = Inl OutOfBounds"
| "first_entry (Linked (p # ps)) = Inr p"

text \<open>
  \<^verbatim>\<open>buddy_alloc\<close>, without its messages on \<^verbatim>\<open>stderr\<close>. The result \<open>None\<close> says that
  the call does not return.
\<close>

definition buddy_alloc :: "buddy \<Rightarrow> int \<Rightarrow> (fault + ptr \<times> buddy) option" where
  "buddy_alloc s sz =
     (case getOrder sz of
        Inl f \<Rightarrow> Some (Inl f)
      | Inr orderOfRequest \<Rightarrow>
          if orderOfRequest < 0 then Some (Inr (NULL, s))
          else
            (case find_free (free_area s) orderOfRequest of
               None \<Rightarrow> None
             | Some (Inl f) \<Rightarrow> Some (Inl f)
             | Some (Inr freeOrder) \<Rightarrow>
                 if freeOrder < 0 then Some (Inr (NULL, s))
                 else if \<not> nat freeOrder < length (free_area s) then Some (Inl OutOfBounds)
                 else
                   (case first_entry (free_area s ! nat freeOrder) of
                      Inl f \<Rightarrow> Some (Inl f)
                    | Inr p \<Rightarrow>
                        if \<not> p < length (g_pages s) then Some (Inl OutOfBounds)
                        else
                          (case ADDR_TO_PAGE (addr (g_pages s ! p)) of
                             Inl f \<Rightarrow> Some (Inl f)
                           | Inr blockStartIndex \<Rightarrow>
                               Some (splitBlock s freeOrder orderOfRequest blockStartIndex)))))"

subsection \<open>buddy\_free\<close>

text \<open>
  The scan \<^verbatim>\<open>list_for_each_entry\<close> of \<^verbatim>\<open>buddy_free\<close> up to its \<^verbatim>\<open>break\<close>: the first
  entry of the list whose address is the buddy's, if there is one.
\<close>

fun find_buddy :: "page_t list \<Rightarrow> ptr \<Rightarrow> nat list \<Rightarrow> fault + nat option" where
  "find_buddy ps buddyAddr [] = Inr None"
| "find_buddy ps buddyAddr (t # ts) =
     (if \<not> t < length ps then Inl OutOfBounds
      else if addr (ps ! t) = buddyAddr then Inr (Some t)
      else find_buddy ps buddyAddr ts)"

text \<open>The number of entries of all free lists: it bounds the recursion of \<^verbatim>\<open>buddy_free\<close>.\<close>

definition total_entries :: "buddy \<Rightarrow> nat" where
  "total_entries s = sum_list (map (\<lambda>h. length (entries h)) (free_area s))"

function buddy_free :: "buddy \<Rightarrow> ptr \<Rightarrow> fault + buddy" where
  "buddy_free s a =
     (if a = NULL then Inr s
      else (case ADDR_TO_PAGE a of
        Inl f \<Rightarrow> Inl f
      | Inr i \<Rightarrow>
          if \<not> i < length (g_pages s) then Inl OutOfBounds
          else
            let k = order (g_pages s ! i) in
            if k < 0 \<or> \<not> nat k < length (free_area s) then Inl OutOfBounds
            else
              (case free_area s ! nat k of
                 Zeroed \<Rightarrow> Inl NullDereference
               | Linked xs \<Rightarrow>
                   if xs = [] then list_add i k s
                   else
                     (case BUDDY_ADDR (addr (g_pages s ! i)) k of
                        Inl f \<Rightarrow> Inl f
                      | Inr buddyAddr \<Rightarrow>
                         (case find_buddy (g_pages s) buddyAddr xs of
                            Inl f \<Rightarrow> Inl f
                          | Inr None \<Rightarrow> list_add i k s
                          | Inr (Some t) \<Rightarrow>
                              let l = (if index (g_pages s ! t) < index (g_pages s ! i)
                                       then t else i);
                                  r = (if index (g_pages s ! t) < index (g_pages s ! i)
                                       then i else t);
                                  s1 = set_order r (- 1) s;
                                  s2 = set_order l (order (g_pages s1 ! l) + 1) s1;
                                  s3 = list_del t s2
                              in if order (g_pages s3 ! l) \<le> MAX_ORDER
                                 then buddy_free s3 (addr (g_pages s3 ! l))
                                 else Inr s3)))))"
  by pat_completeness auto


lemma find_buddy_Some:
  "find_buddy ps b xs = Inr (Some t) \<Longrightarrow> t \<in> set xs \<and> t < length ps \<and> addr (ps ! t) = b"
  by (induction xs) (auto split: if_splits)

lemma length_entries_unlink: "length (entries (unlink p h)) \<le> length (entries h)"
  by (cases h) simp_all

lemma length_entries_unlink_less:
  "p \<in> set (entries h) \<Longrightarrow> length (entries (unlink p h)) < length (entries h)"
  by (cases h) (simp_all add: length_removeAll_less)

lemma sum_list_unlink_le:
  "sum_list (map (\<lambda>h. length (entries (unlink p h))) hs)
     \<le> sum_list (map (\<lambda>h. length (entries h)) hs)"
  by (induction hs) (simp_all add: add_mono length_entries_unlink)

lemma sum_list_unlink_less:
  "h \<in> set hs \<Longrightarrow> p \<in> set (entries h) \<Longrightarrow>
   sum_list (map (\<lambda>h. length (entries (unlink p h))) hs)
     < sum_list (map (\<lambda>h. length (entries h)) hs)"
proof (induction hs)
  case Nil
  then show ?case by simp
next
  case (Cons x hs)
  show ?case
  proof (cases "h = x")
    case True
    with Cons.prems have "length (entries (unlink p x)) < length (entries x)"
      by (simp add: length_entries_unlink_less)
    with sum_list_unlink_le [of p hs] show ?thesis by simp
  next
    case False
    with Cons have "sum_list (map (\<lambda>h. length (entries (unlink p h))) hs)
        < sum_list (map (\<lambda>h. length (entries h)) hs)"
      by simp
    with length_entries_unlink [of p x] show ?thesis by simp
  qed
qed

lemma total_entries_set_order [simp]: "total_entries (set_order i k s) = total_entries s"
  by (simp add: total_entries_def set_order_def)

lemma total_entries_list_del:
  "n < length (free_area s) \<Longrightarrow> p \<in> set (entries (free_area s ! n)) \<Longrightarrow>
   total_entries (list_del p s) < total_entries s"
  using sum_list_unlink_less [of "free_area s ! n" "free_area s" p]
  by (simp add: total_entries_def list_del_def comp_def)

termination buddy_free
proof (relation "measure (\<lambda>(s, a). total_entries s)", goal_cases)
  case 1
  show ?case by simp
next
  case (2 s a i k xs buddyAddr opt t l r s1 s2 s3)
  from 2 have "t \<in> set (entries (free_area s ! nat k))"
    by (simp add: find_buddy_Some)
  moreover from 2 have "nat k < length (free_area s)"
    by simp
  ultimately have "total_entries (list_del t s) < total_entries s"
    by (rule total_entries_list_del [rotated])
  moreover from 2 have "total_entries s3 = total_entries (list_del t s)"
    by (simp add: total_entries_def list_del_def set_order_def)
  ultimately show ?case by simp
qed


declare getOrder_loop.simps [simp del]
declare splitBlock.simps [simp del]
declare buddy_free.simps [simp del]

section \<open>Specification vocabulary\<close>

subsection \<open>Orders and blocks\<close>

text \<open>The orders a block can have.\<close>

definition valid_order :: "int \<Rightarrow> bool" where
  "valid_order k \<longleftrightarrow> MIN_ORDER \<le> k \<and> k \<le> MAX_ORDER"

text \<open>The number of pages of a block of order \<open>k\<close>.\<close>

definition bsize :: "int \<Rightarrow> nat" where
  "bsize k = 2 ^ nat (k - MIN_ORDER)"

text \<open>\<open>k\<close> is the smallest order whose blocks hold \<open>sz\<close> bytes.\<close>

definition least_order :: "int \<Rightarrow> int \<Rightarrow> bool" where
  "least_order sz k \<longleftrightarrow>
     valid_order k \<and> sz \<le> 2 ^ nat k \<and> (\<forall>j. valid_order j \<and> sz \<le> 2 ^ nat j \<longrightarrow> k \<le> j)"

text \<open>
  Two views of a state: the order stored in page \<open>i\<close>, and the entries of the free list
  of order \<open>k\<close>, first entry first.
\<close>

definition ord :: "buddy \<Rightarrow> nat \<Rightarrow> int" where
  "ord s i = order (g_pages s ! i)"

definition fl :: "buddy \<Rightarrow> int \<Rightarrow> nat list" where
  "fl s k = (if valid_order k then entries (free_area s ! nat k) else [])"

subsection \<open>Well-formed states\<close>

text \<open>
  What \<^verbatim>\<open>buddy_init\<close> establishes and no function changes: the arrays have their declared
  sizes, every page knows its address and index, and exactly the list heads of the
  orders from \<open>MIN_ORDER\<close> to \<open>MAX_ORDER\<close> are initialised.
\<close>

definition shape :: "buddy \<Rightarrow> bool" where
  "shape s \<longleftrightarrow>
     length (g_pages s) = N_PAGES \<and>
     length (free_area s) = nat MAX_ORDER + 1 \<and>
     (\<forall>i<N_PAGES. addr (g_pages s ! i) = PAGE_TO_ADDR i \<and> index (g_pages s ! i) = int i) \<and>
     (\<forall>n\<le>nat MAX_ORDER. free_area s ! n = Zeroed \<longleftrightarrow> n < nat MIN_ORDER)"

text \<open>
  A page whose order is not \<open>- 1\<close> is the head of a block. Heads have an order in range
  and are aligned to the size of their block; the blocks do not overlap and cover the
  arena; a free list of order \<open>k\<close> holds heads of order \<open>k\<close>, each once.
\<close>

definition heads_ok :: "(nat \<Rightarrow> int) \<Rightarrow> bool" where
  "heads_ok od \<longleftrightarrow> (\<forall>i<N_PAGES. od i \<noteq> - 1 \<longrightarrow> valid_order (od i) \<and> bsize (od i) dvd i)"

definition disjoint_blocks :: "(nat \<Rightarrow> int) \<Rightarrow> bool" where
  "disjoint_blocks od \<longleftrightarrow>
     (\<forall>i<N_PAGES. \<forall>j<N_PAGES. od i \<noteq> - 1 \<and> od j \<noteq> - 1 \<and> i < j \<longrightarrow> i + bsize (od i) \<le> j)"

definition covered :: "(nat \<Rightarrow> int) \<Rightarrow> bool" where
  "covered od \<longleftrightarrow> (\<forall>j<N_PAGES. \<exists>i\<le>j. od i \<noteq> - 1 \<and> j < i + bsize (od i))"

definition lists_ok :: "(nat \<Rightarrow> int) \<Rightarrow> (int \<Rightarrow> nat list) \<Rightarrow> bool" where
  "lists_ok od fr \<longleftrightarrow>
     (\<forall>k. valid_order k \<longrightarrow> distinct (fr k) \<and> (\<forall>p\<in>set (fr k). p < N_PAGES \<and> od p = k))"

text \<open>Page \<open>q\<close> lies at the buddy address, at order \<open>k\<close>, of page \<open>p\<close>.\<close>

definition buddies :: "int \<Rightarrow> nat \<Rightarrow> nat \<Rightarrow> bool" where
  "buddies k p q \<longleftrightarrow> BUDDY_ADDR (PAGE_TO_ADDR p) k = Inr (PAGE_TO_ADDR q)"

definition no_free_buddies :: "(int \<Rightarrow> nat list) \<Rightarrow> bool" where
  "no_free_buddies fr \<longleftrightarrow>
     (\<forall>k p q. valid_order k \<and> p \<in> set (fr k) \<and> q \<in> set (fr k) \<longrightarrow> \<not> buddies k p q)"

definition inv :: "(nat \<Rightarrow> int) \<Rightarrow> (int \<Rightarrow> nat list) \<Rightarrow> bool" where
  "inv od fr \<longleftrightarrow>
     heads_ok od \<and> disjoint_blocks od \<and> covered od \<and> lists_ok od fr \<and> no_free_buddies fr"

definition wf_state :: "buddy \<Rightarrow> bool" where
  "wf_state s \<longleftrightarrow>
     shape s \<and> heads_ok (ord s) \<and> disjoint_blocks (ord s) \<and> covered (ord s) \<and>
     lists_ok (ord s) (fl s) \<and> no_free_buddies (fl s)"

text \<open>The heads of the allocated blocks: the heads that are in no free list.\<close>

definition unlisted :: "(int \<Rightarrow> nat list) \<Rightarrow> nat \<Rightarrow> bool" where
  "unlisted fr p \<longleftrightarrow> (\<forall>k. valid_order k \<longrightarrow> p \<notin> set (fr k))"

definition alloc_set :: "(nat \<Rightarrow> int) \<Rightarrow> (int \<Rightarrow> nat list) \<Rightarrow> nat set" where
  "alloc_set od fr = {i. i < N_PAGES \<and> od i \<noteq> - 1 \<and> unlisted fr i}"

definition allocated :: "buddy \<Rightarrow> nat set" where
  "allocated s = alloc_set (ord s) (fl s)"

subsection \<open>Runs of the allocator\<close>

text \<open>The state right after \<^verbatim>\<open>buddy_init\<close>, called when the program starts.\<close>

definition fresh :: buddy where
  "fresh = (case buddy_init startup of Inr s \<Rightarrow> s | Inl f \<Rightarrow> startup)"

text \<open>
  A client calls \<^verbatim>\<open>buddy_alloc\<close> and \<^verbatim>\<open>buddy_free\<close>. \<open>run\<close> executes a sequence of calls
  and keeps the list of the addresses that were returned and are not freed yet. A
  \<^verbatim>\<open>buddy_free\<close> of any other address ends the run, and so does a call that faults or
  does not return.
\<close>

datatype call = Alloc int | Free ptr

fun run :: "buddy \<Rightarrow> ptr list \<Rightarrow> call list \<Rightarrow> (buddy \<times> ptr list) option" where
  "run s live [] = Some (s, live)"
| "run s live (Alloc sz # cs) =
     (case buddy_alloc s sz of
        Some (Inr (a, s')) \<Rightarrow> run s' (if a = NULL then live else a # live) cs
      | _ \<Rightarrow> None)"
| "run s live (Free a # cs) =
     (if a \<in> set live then
        (case buddy_free s a of
           Inr s' \<Rightarrow> run s' (remove1 a live) cs
         | Inl f \<Rightarrow> None)
      else None)"

definition reachable :: "buddy \<Rightarrow> ptr list \<Rightarrow> bool" where
  "reachable s live \<longleftrightarrow> (\<exists>cs. run fresh [] cs = Some (s, live))"

text \<open>The invariant of a run: the live addresses are those of the allocated blocks.\<close>

definition live_ok :: "buddy \<Rightarrow> ptr list \<Rightarrow> bool" where
  "live_ok s live \<longleftrightarrow> wf_state s \<and> distinct live \<and> set live = PAGE_TO_ADDR ` allocated s \<and>
     g_memory s = g_memory fresh"

subsection \<open>Results of the operations\<close>

text \<open>
  What \<^verbatim>\<open>splitBlock\<close> leaves behind when it splits the block at page \<open>p\<close> from order
  \<open>cur\<close> down to order \<open>tgt\<close>: the right half of every halving is the first entry of
  the list of its order, \<open>p\<close> is in no list, no other page changes its order.
\<close>

definition split_post :: "buddy \<Rightarrow> int \<Rightarrow> int \<Rightarrow> nat \<Rightarrow> buddy \<Rightarrow> bool" where
  "split_post s cur tgt p s' \<longleftrightarrow>
     shape s' \<and> g_memory s' = g_memory s \<and>
     fl s' = (\<lambda>j. if tgt \<le> j \<and> j < cur then (p + bsize j) # removeAll p (fl s j)
                   else removeAll p (fl s j)) \<and>
     ord s' p = (if tgt = cur then ord s p else tgt) \<and>
     (\<forall>j. tgt \<le> j \<and> j < cur \<longrightarrow> ord s' (p + bsize j) = j) \<and>
     (\<forall>i. i \<noteq> p \<and> (\<forall>j. tgt \<le> j \<and> j < cur \<longrightarrow> i \<noteq> p + bsize j) \<longrightarrow> ord s' i = ord s i) \<and>
     (inv (ord s) (\<lambda>j. removeAll p (fl s j)) \<and> ord s p = cur \<longrightarrow>
        inv (ord s') (fl s') \<and>
        alloc_set (ord s') (fl s') = alloc_set (ord s) (\<lambda>j. removeAll p (fl s j)))"

text \<open>
  The state in which \<^verbatim>\<open>buddy_free\<close> calls itself after it found the buddy \<open>b\<close> of \<open>p\<close>:
  the higher of the two pages has order \<open>- 1\<close>, the lower one has its order incremented,
  and \<open>b\<close> is unlinked.
\<close>

definition merged :: "nat \<Rightarrow> nat \<Rightarrow> buddy \<Rightarrow> buddy" where
  "merged p b s =
     list_del b (set_order (min p b) (ord s p + 1) (set_order (max p b) (- 1) s))"

text \<open>The state \<open>s\<close> with other bytes in the arena.\<close>

definition with_memory :: "char list \<Rightarrow> buddy \<Rightarrow> buddy" where
  "with_memory m s = s\<lparr>g_memory := m\<rparr>"

section \<open>Arithmetic of orders and buddy addresses\<close>

text \<open>
  With \<open>MIN_ORDER = 12\<close> and \<open>MAX_ORDER = 20\<close> the arena has 256 pages of 4096 bytes.
  Flipping bit \<open>k\<close> of the byte offset of a page is flipping bit \<open>k - MIN_ORDER\<close> of its
  index; on an index aligned to \<open>2 ^ r\<close> it adds or subtracts \<open>2 ^ r\<close>.
\<close>

lemma N_PAGES_eq: "N_PAGES = 256"
  by (simp add: N_PAGES_def PAGE_SIZE_def MIN_ORDER_def MAX_ORDER_def)

lemma PAGE_SIZE_eq: "PAGE_SIZE = 4096"
  by (simp add: PAGE_SIZE_def MIN_ORDER_def)

lemma bsize_pos [simp]: "0 < bsize k"
  by (simp add: bsize_def)

lemma bsize_PAGE_SIZE: "MIN_ORDER \<le> k \<Longrightarrow> bsize k * PAGE_SIZE = 2 ^ nat k"
proof -
  assume "MIN_ORDER \<le> k"
  then have "nat k = nat (k - MIN_ORDER) + nat MIN_ORDER"
    by (simp add: MIN_ORDER_def)
  then have "(2::nat) ^ nat k = 2 ^ nat (k - MIN_ORDER) * 2 ^ nat MIN_ORDER"
    by (simp add: power_add)
  then show ?thesis by (simp add: bsize_def PAGE_SIZE_def)
qed

lemma bsize_Suc: "MIN_ORDER \<le> k \<Longrightarrow> bsize (k + 1) = 2 * bsize k"
proof -
  assume "MIN_ORDER \<le> k"
  then have "nat (k + 1 - MIN_ORDER) = Suc (nat (k - MIN_ORDER))"
    by arith
  then show ?thesis by (simp add: bsize_def)
qed

lemma bsize_dvd_N: "valid_order k \<Longrightarrow> bsize k dvd N_PAGES"
proof -
  assume "valid_order k"
  then have "nat (k - MIN_ORDER) \<le> 8"
    unfolding valid_order_def MIN_ORDER_def MAX_ORDER_def by arith
  then have "(2::nat) ^ nat (k - MIN_ORDER) dvd 2 ^ 8"
    by (rule le_imp_power_dvd)
  then show ?thesis by (simp add: bsize_def N_PAGES_eq)
qed

lemma bsize_mono: "j \<le> k \<Longrightarrow> bsize j dvd bsize k"
  by (simp add: bsize_def le_imp_power_dvd)

lemma xor_pow_low: "2 * 2 ^ r dvd p \<Longrightarrow> p XOR 2 ^ r = p + (2 ^ r :: nat)"
proof -
  assume "2 * 2 ^ r dvd p"
  then obtain m where p: "p = 2 ^ r * (2 * m)" by (auto elim: dvdE)
  have "p XOR 2 ^ r = push_bit r (2 * m) XOR push_bit r 1"
    by (simp add: p push_bit_eq_mult mult.commute)
  also have "\<dots> = push_bit r (2 * m XOR 1)"
    by (simp add: push_bit_xor)
  also have "2 * m XOR 1 = 2 * m + 1"
    by (simp add: xor_Suc_0_eq)
  finally show ?thesis
    by (simp add: p push_bit_eq_mult algebra_simps)
qed

lemma xor_pow_high:
  assumes "2 ^ r dvd p" "\<not> 2 * 2 ^ r dvd p"
  shows "(2 ^ r :: nat) \<le> p \<and> p XOR 2 ^ r = p - 2 ^ r \<and> 2 * 2 ^ r dvd p - 2 ^ r"
proof -
  from assms(1) obtain q where p: "p = 2 ^ r * q" by (auto elim: dvdE)
  with assms(2) have "odd q" by auto
  then obtain m where q: "q = 2 * m + 1" by (auto elim: oddE)
  have "p XOR 2 ^ r = push_bit r q XOR push_bit r 1"
    by (simp add: p push_bit_eq_mult mult.commute)
  also have "\<dots> = push_bit r (q XOR 1)"
    by (simp add: push_bit_xor)
  also have "q XOR 1 = 2 * m"
    by (simp add: q xor_Suc_0_eq)
  finally have "p XOR 2 ^ r = 2 ^ r * (2 * m)"
    by (simp add: push_bit_eq_mult)
  moreover have "p = 2 ^ r * (2 * m) + 2 ^ r"
    by (simp add: p q algebra_simps)
  ultimately show ?thesis by simp
qed

lemma xor_pages:
  assumes "MIN_ORDER \<le> k"
  shows "(p * PAGE_SIZE) XOR (2 ^ nat k) = (p XOR bsize k) * PAGE_SIZE"
proof -
  have "(p * PAGE_SIZE) XOR (bsize k * PAGE_SIZE)
      = push_bit (nat MIN_ORDER) p XOR push_bit (nat MIN_ORDER) (bsize k)"
    by (simp add: push_bit_eq_mult PAGE_SIZE_def)
  also have "\<dots> = push_bit (nat MIN_ORDER) (p XOR bsize k)"
    by (simp add: push_bit_xor)
  finally show ?thesis
    using assms by (simp add: push_bit_eq_mult PAGE_SIZE_def bsize_PAGE_SIZE [unfolded PAGE_SIZE_def])
qed

lemma xor_xor_cancel: "(p XOR b) XOR b = (p::nat)"
  by (simp add: xor.assoc)

section \<open>The order computation\<close>

text \<open>
  For a positive size the test of the loop compares the size with \<open>2 ^ order\<close>, so the
  loop stops at the first order whose power of two reaches the size, as long as such a
  power fits an \<^verbatim>\<open>int\<close>.
\<close>

lemmas getOrder_eval =
  getOrder_def getOrder_loop.simps shl1_def c_div_def MIN_ORDER_def MAX_ORDER_def

lemma c_div_pos: "0 < a \<Longrightarrow> 0 < b \<Longrightarrow> c_div a b < 1 \<longleftrightarrow> a < b"
proof -
  assume a: "0 < a" and b: "0 < b"
  then have "c_div a b = a div b"
    by (simp add: c_div_def)
  moreover from a b have "a div b < 1 \<longleftrightarrow> a < b"
    by (metis div_pos_pos_trivial int_one_le_iff_zero_less less_le not_less pos_imp_zdiv_pos_iff zero_less_one) 
  ultimately show ?thesis by simp
qed

lemma shl1_small: "0 \<le> k \<Longrightarrow> k \<le> 30 \<Longrightarrow> shl1 k = Inr (2 ^ nat k)"
  by (simp add: shl1_def)

lemma getOrder_loop_up:
  assumes "0 < sz" "0 \<le> k" "k \<le> b" "b \<le> 30" "sz \<le> 2 ^ nat b"
    and "\<forall>j. a \<le> j \<and> j < k \<longrightarrow> 2 ^ nat j < sz"
  shows "\<exists>r. getOrder_loop sz k = Inr r \<and> k \<le> r \<and> r \<le> b \<and> sz \<le> 2 ^ nat r \<and>
             (\<forall>j. a \<le> j \<and> j < r \<longrightarrow> 2 ^ nat j < sz)"
  using assms
proof (induction "nat (b - k)" arbitrary: k)
  case 0
  then have kb: "k = b" by simp
  with 0 have "\<not> c_div (2 ^ nat k) sz < 1"
    by (simp add: c_div_pos)
  with 0 kb show ?case
    by (subst getOrder_loop.simps) (simp add: shl1_small)
next
  case (Suc n)
  show ?case
  proof (cases "(2::int) ^ nat k < sz")
    case True
    with Suc.prems have step: "getOrder_loop sz k = getOrder_loop sz (k + 1)"
      by (subst getOrder_loop.simps) (simp add: shl1_small c_div_pos)
    from Suc.hyps(2) have n: "n = nat (b - (k + 1))" and kb: "k + 1 \<le> b"
      by arith+
    have all: "\<forall>j. a \<le> j \<and> j < k + 1 \<longrightarrow> 2 ^ nat j < sz"
    proof (intro allI impI)
      fix j assume j: "a \<le> j \<and> j < k + 1"
      show "2 ^ nat j < sz"
      proof (cases "j = k")
        case True
        with \<open>2 ^ nat k < sz\<close> show ?thesis by simp
      next
        case False
        with j Suc.prems(6) show ?thesis by simp
      qed
    qed
    from Suc.hyps(1) [OF n Suc.prems(1) _ kb Suc.prems(4) Suc.prems(5) all] Suc.prems(2)
    obtain r where "getOrder_loop sz (k + 1) = Inr r" "k + 1 \<le> r" "r \<le> b" "sz \<le> 2 ^ nat r"
      "\<forall>j. a \<le> j \<and> j < r \<longrightarrow> 2 ^ nat j < sz"
      by auto
    with step show ?thesis by auto
  next
    case False
    with Suc.prems have "getOrder_loop sz k = Inr k"
      by (subst getOrder_loop.simps) (simp add: shl1_small c_div_pos)
    with False Suc.prems show ?thesis by auto
  qed
qed

lemma getOrder_least:
  assumes "0 < sz" "sz \<le> 2 ^ nat MAX_ORDER"
  shows "\<exists>k. getOrder sz = Inr k \<and> least_order sz k"
proof -
  have "\<exists>r. getOrder_loop sz MIN_ORDER = Inr r \<and> MIN_ORDER \<le> r \<and> r \<le> MAX_ORDER \<and>
      sz \<le> 2 ^ nat r \<and> (\<forall>j. MIN_ORDER \<le> j \<and> j < r \<longrightarrow> 2 ^ nat j < sz)"
    using assms by (intro getOrder_loop_up) (simp_all add: MIN_ORDER_def MAX_ORDER_def)
  then obtain r where r: "getOrder_loop sz MIN_ORDER = Inr r" "MIN_ORDER \<le> r" "r \<le> MAX_ORDER"
      "sz \<le> 2 ^ nat r" "\<forall>j. MIN_ORDER \<le> j \<and> j < r \<longrightarrow> 2 ^ nat j < sz"
    by blast
  then have "getOrder sz = Inr r"
    by (simp add: getOrder_def)
  moreover have "least_order sz r"
    unfolding least_order_def valid_order_def
  proof (intro conjI allI impI)
    fix j assume j: "(MIN_ORDER \<le> j \<and> j \<le> MAX_ORDER) \<and> sz \<le> 2 ^ nat j"
    show "r \<le> j"
    proof (rule ccontr)
      assume "\<not> r \<le> j"
      with j r(5) have "2 ^ nat j < sz" by simp
      with j show False by simp
    qed
  qed (use r in simp_all)
  ultimately show ?thesis by blast
qed

lemma getOrder_too_large:
  assumes "2 ^ nat MAX_ORDER < sz" "sz \<le> 2 ^ 30"
  shows "getOrder sz = Inr (- 1)"
proof -
  have "\<exists>r. getOrder_loop sz MIN_ORDER = Inr r \<and> MIN_ORDER \<le> r \<and> r \<le> 30 \<and>
      sz \<le> 2 ^ nat r \<and> (\<forall>j. MIN_ORDER \<le> j \<and> j < r \<longrightarrow> 2 ^ nat j < sz)"
    using assms by (intro getOrder_loop_up) (simp_all add: MIN_ORDER_def MAX_ORDER_def)
  then obtain r where r: "getOrder_loop sz MIN_ORDER = Inr r" "sz \<le> 2 ^ nat r"
    by blast
  have "MAX_ORDER < r"
  proof (rule ccontr)
    assume "\<not> MAX_ORDER < r"
    then have "nat r \<le> nat MAX_ORDER" by simp
    then have "(2::int) ^ nat r \<le> 2 ^ nat MAX_ORDER"
      by (intro power_increasing) simp_all
    with r(2) assms(1) show False by simp
  qed
  with r show ?thesis by (simp add: getOrder_def)
qed

lemma least_order_unique: "least_order sz k \<Longrightarrow> least_order sz k' \<Longrightarrow> k = k'"
  by (auto simp: least_order_def intro: antisym)

section \<open>The state after initialisation\<close>

lemma wf_state_inv: "wf_state s \<longleftrightarrow> shape s \<and> inv (ord s) (fl s)"
  by (simp add: wf_state_def inv_def)

lemma valid_order_simps:
  "valid_order k \<Longrightarrow> 0 \<le> k" "valid_order k \<Longrightarrow> k \<le> 20" "valid_order k \<Longrightarrow> 12 \<le> k"
  "valid_order k \<Longrightarrow> nat k < 21" "valid_order k \<Longrightarrow> k \<le> 30"
  "valid_order k \<Longrightarrow> nat k \<le> 20" "valid_order k \<Longrightarrow> \<not> nat k < 12" "valid_order k \<Longrightarrow> k \<noteq> - 1"
  "valid_order k \<Longrightarrow> k + 1 \<noteq> - 1" "valid_order k \<Longrightarrow> \<not> k < 0"
  unfolding valid_order_def MIN_ORDER_def MAX_ORDER_def by arith+

lemma valid_order_bounds:
  "valid_order k \<Longrightarrow> k \<le> MAX_ORDER" "valid_order k \<Longrightarrow> MIN_ORDER \<le> k"
  by (simp_all add: valid_order_def)

lemma shape_lengths:
  "shape s \<Longrightarrow> length (g_pages s) = 256" "shape s \<Longrightarrow> length (free_area s) = 21"
  by (simp_all add: shape_def N_PAGES_eq MAX_ORDER_def)

lemma shape_heads:
  "shape s \<Longrightarrow> valid_order k \<Longrightarrow> free_area s ! nat k \<noteq> Zeroed"
  by (simp add: shape_def valid_order_simps MAX_ORDER_def MIN_ORDER_def)

lemma shape_pages:
  "shape s \<Longrightarrow> i < N_PAGES \<Longrightarrow> addr (g_pages s ! i) = PAGE_TO_ADDR i"
  "shape s \<Longrightarrow> i < N_PAGES \<Longrightarrow> index (g_pages s ! i) = int i"
  by (simp_all add: shape_def)

lemma bsize_neq_0 [simp]: "bsize k \<noteq> 0"
  by (simp add: bsize_def)

lemma buddies_iff: "valid_order k \<Longrightarrow> buddies k p q \<longleftrightarrow> q = p XOR bsize k"
proof -
  assume k: "valid_order k"
  then have "shl1 k = Inr (2 ^ nat k)"
    by (simp add: shl1_small valid_order_simps)
  moreover from k have "(p * PAGE_SIZE) XOR (2 ^ nat k) = (p XOR bsize k) * PAGE_SIZE"
    by (simp add: xor_pages valid_order_def)
  ultimately show ?thesis
    by (auto simp: buddies_def PAGE_TO_ADDR_def PAGE_SIZE_eq nat_power_eq)
qed

lemma length_fold_update:
  "length (fold (\<lambda>i ps. ps[i := f i]) js xs) = length xs"
  by (induction js arbitrary: xs) simp_all

lemma nth_fold_update:
  "j < length xs \<Longrightarrow>
   fold (\<lambda>i ps. ps[i := f i]) js xs ! j = (if j \<in> set js then f j else xs ! j)"
  by (induction js arbitrary: xs) (auto simp: nth_list_update)

lemma buddy_init_startup: "buddy_init startup = Inr fresh"
  by (simp add: fresh_def buddy_init_def startup_def list_add_def Let_def length_fold_update
      nth_fold_update N_PAGES_eq MAX_ORDER_def MIN_ORDER_def)

lemma fresh_eq:
  "fresh = \<lparr>free_area =
             (fold (\<lambda>i fa. fa[i := Linked []]) [nat MIN_ORDER..<Suc (nat MAX_ORDER)]
                (replicate (nat MAX_ORDER + 1) Zeroed))[nat MAX_ORDER := Linked [0]],
           g_memory = g_memory startup,
           g_pages =
             (let ps = fold (\<lambda>i ps. ps[i := \<lparr>addr = PAGE_TO_ADDR i, order = - 1, index = int i\<rparr>])
                    [0..<N_PAGES] (replicate N_PAGES \<lparr>addr = NULL, order = 0, index = 0\<rparr>)
              in ps[0 := (ps ! 0)\<lparr>order := MAX_ORDER\<rparr>])\<rparr>"
  by (simp add: fresh_def buddy_init_def startup_def list_add_def Let_def length_fold_update
      nth_fold_update N_PAGES_eq MAX_ORDER_def MIN_ORDER_def set_order_def PAGE_SIZE_eq)

lemma g_memory_fresh: "g_memory fresh = g_memory startup"
  by (simp add: fresh_eq)

lemma length_g_pages_fresh: "length (g_pages fresh) = N_PAGES"
  by (simp add: fresh_eq Let_def length_fold_update)

lemma length_free_area_fresh: "length (free_area fresh) = nat MAX_ORDER + 1"
  by (simp add: fresh_eq length_fold_update)

lemma g_pages_fresh:
  "i < N_PAGES \<Longrightarrow>
   g_pages fresh ! i =
     \<lparr>addr = PAGE_TO_ADDR i, order = (if i = 0 then MAX_ORDER else - 1), index = int i\<rparr>"
  by (simp add: fresh_eq Let_def length_fold_update nth_fold_update nth_list_update)

lemma free_area_fresh:
  "n \<le> nat MAX_ORDER \<Longrightarrow>
   free_area fresh ! n =
     (if n < nat MIN_ORDER then Zeroed else if n < nat MAX_ORDER then Linked [] else Linked [0])"
  by (simp add: fresh_eq length_fold_update nth_fold_update nth_list_update
      MIN_ORDER_def MAX_ORDER_def)

lemma ord_fresh: "i < N_PAGES \<Longrightarrow> ord fresh i = (if i = 0 then MAX_ORDER else - 1)"
  by (simp add: ord_def g_pages_fresh)

lemma fl_fresh: "valid_order k \<Longrightarrow> fl fresh k = (if k = MAX_ORDER then [0] else [])"
  by (auto simp: fl_def free_area_fresh valid_order_def MIN_ORDER_def MAX_ORDER_def)

lemma shape_fresh: "shape fresh"
  by (simp add: shape_def length_g_pages_fresh length_free_area_fresh g_pages_fresh
      free_area_fresh)

lemma bsize_MAX: "bsize MAX_ORDER = N_PAGES"
  by (simp add: bsize_def N_PAGES_eq MIN_ORDER_def MAX_ORDER_def)

lemma wf_fresh: "wf_state fresh"
  unfolding wf_state_def
proof (intro conjI)
  show "shape fresh" by (rule shape_fresh)
  show "heads_ok (ord fresh)"
    by (simp add: heads_ok_def ord_fresh valid_order_def MIN_ORDER_def MAX_ORDER_def)
  show "disjoint_blocks (ord fresh)"
    by (simp add: disjoint_blocks_def ord_fresh)
  show "covered (ord fresh)"
    unfolding covered_def
  proof (intro allI impI)
    fix j assume "j < N_PAGES"
    then have "ord fresh 0 \<noteq> - 1 \<and> j < 0 + bsize (ord fresh 0)"
      by (simp add: ord_fresh bsize_MAX N_PAGES_eq) (simp add: MAX_ORDER_def)
    then show "\<exists>i\<le>j. ord fresh i \<noteq> - 1 \<and> j < i + bsize (ord fresh i)"
      by blast
  qed
  show "lists_ok (ord fresh) (fl fresh)"
    by (simp add: lists_ok_def fl_fresh ord_fresh N_PAGES_eq)
  show "no_free_buddies (fl fresh)"
    by (auto simp: no_free_buddies_def fl_fresh buddies_iff split: if_splits)
qed

lemma allocated_fresh: "allocated fresh = {}"
proof -
  have "\<not> unlisted (fl fresh) 0"
    unfolding unlisted_def
    by (simp add: fl_fresh valid_order_def MIN_ORDER_def MAX_ORDER_def)
  then show ?thesis
    by (auto simp: allocated_def alloc_set_def ord_fresh split: if_splits)
qed

section \<open>The invariant under single steps\<close>

text \<open>
  The invariant is a property of the orders of the pages and of the entries of the free
  lists. It is kept by the four steps the operations are made of: halving an allocated
  block and freeing its right half, unlinking a free block, linking an allocated block
  whose buddy is not free, and merging an allocated block with its free buddy.
\<close>

lemma aligned_block_in_range:
  assumes "b dvd p" "b dvd n" "p < n"
  shows "p + b \<le> (n::nat)"
proof -
  from assms obtain x y where "p = b * x" "n = b * y" by (auto elim!: dvdE)
  with assms(3) have "x < y" by simp
  then have "b * (x + 1) \<le> b * y" by (intro mult_le_mono2) simp
  with \<open>p = b * x\<close> \<open>n = b * y\<close> show ?thesis by simp
qed

lemma split_step:
  assumes I: "inv od fr"
    and p: "p < N_PAGES" "od p = k + 1" "valid_order k" "unlisted fr p"
  shows "p + bsize k < N_PAGES" "od (p + bsize k) = - 1" "p XOR bsize k = p + bsize k"
    "inv (od(p := k, p + bsize k := k)) (fr(k := (p + bsize k) # fr k))"
    "unlisted (fr(k := (p + bsize k) # fr k)) p"
proof -
  let ?n = "bsize k" and ?q = "p + bsize k"
  let ?od = "od(p := k, ?q := k)" and ?fr = "fr(k := ?q # fr k)"
  from I have H: "heads_ok od" and D: "disjoint_blocks od" and C: "covered od"
    and L: "lists_ok od fr" and B: "no_free_buddies fr"
    by (simp_all add: inv_def)
  have hp: "od p \<noteq> - 1"
    using p(2,3) by (simp add: valid_order_def MIN_ORDER_def)
  with H p(1) have "valid_order (od p) \<and> bsize (od p) dvd p"
    by (simp add: heads_ok_def)
  with p(2) have k1: "valid_order (k + 1)" and al2: "bsize (k + 1) dvd p"
    by simp_all
  from p have bs: "bsize (k + 1) = 2 * ?n"
    by (simp add: bsize_Suc valid_order_def)
  from al2 bs have al: "?n dvd p" by (metis dvd_mult_right mult.commute)
  from aligned_block_in_range [OF al2 bsize_dvd_N [OF k1] p(1)] bs
  have rng: "p + 2 * ?n \<le> N_PAGES" by simp
  then show q: "?q < N_PAGES" using bsize_pos [of k] by linarith
  show oq: "od ?q = - 1"
  proof (rule ccontr)
    assume "od ?q \<noteq> - 1"
    moreover have "p < ?q" by simp
    ultimately have "p + bsize (od p) \<le> ?q"
      using D p(1) q hp unfolding disjoint_blocks_def by blast
    with p bs show False by simp
  qed
  show x: "p XOR ?n = ?q"
    using al2 bs by (simp add: bsize_def xor_pow_low)
  have pq: "p \<noteq> ?q" by simp
  have kk: "k \<noteq> - 1" using p(3) by (simp add: valid_order_def MIN_ORDER_def)
  have H': "heads_ok ?od"
    unfolding heads_ok_def using H p(3) al by (auto simp: heads_ok_def)
  have D': "disjoint_blocks ?od"
    unfolding disjoint_blocks_def
  proof (intro allI impI)
    fix i j assume i: "i < N_PAGES" and j: "j < N_PAGES"
      and h: "?od i \<noteq> - 1 \<and> ?od j \<noteq> - 1 \<and> i < j"
    have old: "\<And>a b. a < N_PAGES \<Longrightarrow> b < N_PAGES \<Longrightarrow> od a \<noteq> - 1 \<Longrightarrow> od b \<noteq> - 1 \<Longrightarrow> a < b
        \<Longrightarrow> a + bsize (od a) \<le> b"
      using D by (simp add: disjoint_blocks_def)
    consider "i = p" "j = ?q" | "i = p" "j \<noteq> ?q" | "i = ?q" | "i \<noteq> p" "i \<noteq> ?q" "j = p"
      | "i \<noteq> p" "i \<noteq> ?q" "j = ?q" | "i \<noteq> p" "i \<noteq> ?q" "j \<noteq> p" "j \<noteq> ?q"
      by blast
    then show "i + bsize (?od i) \<le> j"
    proof cases
      case 1
      then show ?thesis by simp
    next
      case 2
      with h have "od j \<noteq> - 1" "p < j" by auto
      from old [OF p(1) j hp this] p bs 2 show ?thesis by simp
    next
      case 3
      with h have oj: "od j \<noteq> - 1" and pj: "p < j" and qj: "?q < j"
        by (auto split: if_splits)
      from old [OF p(1) j hp oj pj] p bs 3 show ?thesis by simp
    next
      case 4
      with h have "od i \<noteq> - 1" by simp
      from old [OF i p(1) this hp] h 4 show ?thesis by simp
    next
      case 5
      with h have oi: "od i \<noteq> - 1" by simp
      show ?thesis
      proof (cases "i < p")
        case True
        from old [OF i p(1) oi hp True] 5 show ?thesis by simp
      next
        case False
        with 5 have "p < i" by simp
        from old [OF p(1) i hp oi this] p bs h 5 show ?thesis by simp
      qed
    next
      case 6
      with h old [OF i j] show ?thesis by simp
    qed
  qed
  have C': "covered ?od"
    unfolding covered_def
  proof (intro allI impI)
    fix j assume j: "j < N_PAGES"
    with C obtain i where i: "i \<le> j" "od i \<noteq> - 1" "j < i + bsize (od i)"
      by (auto simp: covered_def)
    show "\<exists>i\<le>j. ?od i \<noteq> - 1 \<and> j < i + bsize (?od i)"
    proof (cases "i = p")
      case True
      show ?thesis
      proof (cases "j < ?q")
        case True
        with \<open>i = p\<close> i kk show ?thesis by (intro exI [of _ p]) simp
      next
        case False
        with \<open>i = p\<close> i p bs kk show ?thesis by (intro exI [of _ ?q]) simp
      qed
    next
      case False
      moreover from i oq have "i \<noteq> ?q" by auto
      ultimately show ?thesis using i by (intro exI [of _ i]) simp
    qed
  qed
  have notq: "\<And>j. valid_order j \<Longrightarrow> ?q \<notin> set (fr j)"
    using L oq by (auto simp: lists_ok_def valid_order_def MIN_ORDER_def)
  have notp: "\<And>j. valid_order j \<Longrightarrow> p \<notin> set (fr j)"
    using p(4) by (simp add: unlisted_def)
  have L': "lists_ok ?od ?fr"
    unfolding lists_ok_def
  proof (intro allI impI)
    fix j assume j: "valid_order j"
    with L have d: "distinct (fr j)" and e: "\<forall>x\<in>set (fr j). x < N_PAGES \<and> od x = j"
      by (simp_all add: lists_ok_def)
    from e notp [OF j] notq [OF j] have "\<forall>x\<in>set (fr j). x < N_PAGES \<and> ?od x = j"
      by auto
    with d q notq [OF j] show "distinct (?fr j) \<and> (\<forall>x\<in>set (?fr j). x < N_PAGES \<and> ?od x = j)"
      by auto
  qed
  have qx: "?q XOR ?n = p"
    using x xor_xor_cancel [of p ?n] by simp
  have B': "no_free_buddies ?fr"
    unfolding no_free_buddies_def
  proof (intro allI impI notI)
    fix j x y assume a: "valid_order j \<and> x \<in> set (?fr j) \<and> y \<in> set (?fr j)"
      and b: "buddies j x y"
    then have y: "y = x XOR bsize j" by (simp add: buddies_iff)
    then have xy: "x = y XOR bsize j" by (simp add: xor_xor_cancel)
    show False
    proof (cases "j = k")
      case False
      with a b B show False by (auto simp: no_free_buddies_def)
    next
      case True
      have nx: "x \<noteq> ?q"
      proof
        assume "x = ?q"
        with y True qx have "y = p" by simp
        with a True notp [of k] pq show False by auto
      qed
      have ny: "y \<noteq> ?q"
      proof
        assume "y = ?q"
        with xy True qx have "x = p" by simp
        with a True notp [of k] pq show False by auto
      qed
      from a True nx ny have "x \<in> set (fr k)" "y \<in> set (fr k)" by auto
      with a b B True show False by (auto simp: no_free_buddies_def)
    qed
  qed
  from H' D' C' L' B' show "inv ?od ?fr" by (simp add: inv_def)
  show "unlisted ?fr p"
    using notp pq by (auto simp: unlisted_def)
qed

lemma inv_remove:
  assumes "inv od fr"
  shows "inv od (\<lambda>k. removeAll p (fr k))"
proof -
  from assms have "lists_ok od (\<lambda>k. removeAll p (fr k))"
    by (auto simp: inv_def lists_ok_def distinct_removeAll)
  moreover from assms have "no_free_buddies (\<lambda>k. removeAll p (fr k))"
    by (auto simp: inv_def no_free_buddies_def)
  ultimately show ?thesis using assms by (simp add: inv_def)
qed

lemma unlisted_remove: "unlisted (\<lambda>k. removeAll p (fr k)) p"
  by (simp add: unlisted_def)

lemma xor_bsize_neq: "p XOR bsize k \<noteq> p"
proof
  assume "p XOR bsize k = p"
  then have "p XOR (p XOR bsize k) = p XOR p" by simp
  then have "bsize k = 0" by (simp flip: xor.assoc)
  then show False by simp
qed

lemma inv_insert:
  assumes I: "inv od fr"
    and p: "p < N_PAGES" "od p = k" "valid_order k" "unlisted fr p"
    and nb: "p XOR bsize k \<notin> set (fr k)"
  shows "inv od (fr(k := p # fr k))"
proof -
  let ?fr = "fr(k := p # fr k)"
  from I have L: "lists_ok od fr" and B: "no_free_buddies fr"
    by (simp_all add: inv_def)
  from p have notp: "\<And>j. valid_order j \<Longrightarrow> p \<notin> set (fr j)"
    by (simp add: unlisted_def)
  have L': "lists_ok od ?fr"
    using L p notp by (auto simp: lists_ok_def)
  have B': "no_free_buddies ?fr"
    unfolding no_free_buddies_def
  proof (intro allI impI notI)
    fix j x y assume a: "valid_order j \<and> x \<in> set (?fr j) \<and> y \<in> set (?fr j)"
      and b: "buddies j x y"
    then have y: "y = x XOR bsize j" by (simp add: buddies_iff)
    then have xy: "x = y XOR bsize j" by (simp add: xor_xor_cancel)
    show False
    proof (cases "j = k")
      case False
      with a b B show False by (auto simp: no_free_buddies_def)
    next
      case True
      have nx: "x \<noteq> p"
      proof
        assume "x = p"
        with y True nb a notp [of k] xor_bsize_neq [of p k] show False by auto
      qed
      have ny: "y \<noteq> p"
      proof
        assume "y = p"
        with xy True nb a notp [of k] xor_bsize_neq [of p k] show False by auto
      qed
      from a True nx ny have "x \<in> set (fr k)" "y \<in> set (fr k)" by auto
      with a b B True show False by (auto simp: no_free_buddies_def)
    qed
  qed
  from I L' B' show ?thesis by (simp add: inv_def)
qed

lemma buddy_pair:
  assumes "bsize k dvd p"
  obtains l where "2 * bsize k dvd l" "min p (p XOR bsize k) = l"
    "max p (p XOR bsize k) = l + bsize k"
proof (cases "2 * bsize k dvd p")
  case True
  then have "p XOR bsize k = p + bsize k"
    by (simp add: bsize_def xor_pow_low)
  with True that [of p] show ?thesis by simp
next
  case False
  with assms have "bsize k \<le> p \<and> p XOR bsize k = p - bsize k \<and> 2 * bsize k dvd p - bsize k"
    unfolding bsize_def by (intro xor_pow_high) simp_all
  with that [of "p - bsize k"] show ?thesis by simp
qed

lemma merge_step:
  assumes I: "inv od fr"
    and p: "p < N_PAGES" "od p = k" "valid_order k" "unlisted fr p"
    and b: "b = p XOR bsize k" "b \<in> set (fr k)"
    and lr: "l = min p b" "r = max p b"
  shows "valid_order (k + 1)" "l < N_PAGES" "r < N_PAGES" "l \<noteq> r"
    "inv (od(r := - 1, l := k + 1)) (\<lambda>j. removeAll b (fr j))"
    "unlisted (\<lambda>j. removeAll b (fr j)) l"
proof -
  let ?n = "bsize k"
  let ?od = "od(r := - 1, l := k + 1)" and ?fr = "\<lambda>j. removeAll b (fr j)"
  from I have H: "heads_ok od" and D: "disjoint_blocks od" and C: "covered od"
    and L: "lists_ok od fr" and B: "no_free_buddies fr"
    by (simp_all add: inv_def)
  have kk: "k \<noteq> - 1" "k + 1 \<noteq> - 1" using p(3) by (simp_all add: valid_order_def MIN_ORDER_def)
  from L p(3) b(2) have bN: "b < N_PAGES" and ob: "od b = k"
    by (auto simp: lists_ok_def)
  from H p kk have al: "?n dvd p" by (auto simp: heads_ok_def)
  from buddy_pair [OF al] b(1) lr obtain l2: "2 * ?n dvd l" and r: "r = l + ?n"
    by metis
  from lr p(1) bN show lN: "l < N_PAGES" and rN: "r < N_PAGES"
    by (simp_all add: min_def max_def)
  from r show lr_ne: "l \<noteq> r" by simp
  have set_lr: "{l, r} = {p, b}"
    using lr by (auto simp: min_def max_def)
  have ol: "od l = k" and or: "od r = k"
    using set_lr p(2) ob by (metis insertCI insertE singletonD)+
  show k1: "valid_order (k + 1)"
  proof -
    have "k \<noteq> MAX_ORDER"
    proof
      assume "k = MAX_ORDER"
      with r rN show False by (simp add: bsize_MAX)
    qed
    with p(3) show ?thesis by (simp add: valid_order_def)
  qed
  from p(3) have bs: "bsize (k + 1) = 2 * ?n"
    by (simp add: bsize_Suc valid_order_def)
  have old: "\<And>a b. a < N_PAGES \<Longrightarrow> b < N_PAGES \<Longrightarrow> od a \<noteq> - 1 \<Longrightarrow> od b \<noteq> - 1 \<Longrightarrow> a < b
      \<Longrightarrow> a + bsize (od a) \<le> b"
    using D by (simp add: disjoint_blocks_def)
  have H': "heads_ok ?od"
    using H k1 l2 bs by (auto simp: heads_ok_def)
  have D': "disjoint_blocks ?od"
    unfolding disjoint_blocks_def
  proof (intro allI impI)
    fix i j assume i: "i < N_PAGES" and j: "j < N_PAGES"
      and h: "?od i \<noteq> - 1 \<and> ?od j \<noteq> - 1 \<and> i < j"
    then have ir: "i \<noteq> r" and jr: "j \<noteq> r" using lr_ne by (auto split: if_splits)
    show "i + bsize (?od i) \<le> j"
    proof (cases "i = l")
      case True
      with h jr have oj: "od j \<noteq> - 1" and lj: "l < j" by auto
      from old [OF lN j _ oj lj] ol kk have "l + ?n \<le> j" by simp
      with jr r have rj: "r < j" by simp
      from old [OF rN j _ oj rj] or kk have "r + ?n \<le> j" by simp
      with True r bs show ?thesis by simp
    next
      case False
      with h ir have oi: "od i \<noteq> - 1" by simp
      show ?thesis
      proof (cases "j = l")
        case True
        from old [OF i lN oi _ ] ol kk h True False ir show ?thesis by simp
      next
        case jl: False
        with h jr have "od j \<noteq> - 1" by simp
        from old [OF i j oi this] h False ir show ?thesis by simp
      qed
    qed
  qed
  have C': "covered ?od"
    unfolding covered_def
  proof (intro allI impI)
    fix j assume j: "j < N_PAGES"
    with C obtain i where i: "i \<le> j" "od i \<noteq> - 1" "j < i + bsize (od i)"
      by (auto simp: covered_def)
    show "\<exists>i\<le>j. ?od i \<noteq> - 1 \<and> j < i + bsize (?od i)"
    proof (cases "i = l \<or> i = r")
      case True
      with i r ol or have "l \<le> j" "j < l + 2 * ?n" by auto
      with bs kk show ?thesis by (intro exI [of _ l]) simp
    next
      case False
      with i show ?thesis by (intro exI [of _ i]) simp
    qed
  qed
  have notp: "\<And>j. valid_order j \<Longrightarrow> p \<notin> set (fr j)"
    using p(4) by (simp add: unlisted_def)
  have L': "lists_ok ?od ?fr"
    unfolding lists_ok_def
  proof (intro allI impI)
    fix j assume j: "valid_order j"
    with L have d: "distinct (fr j)" and e: "\<forall>x\<in>set (fr j). x < N_PAGES \<and> od x = j"
      by (simp_all add: lists_ok_def)
    have "\<forall>x\<in>set (?fr j). x \<noteq> l \<and> x \<noteq> r"
      using notp [OF j] set_lr by auto
    with d e show "distinct (?fr j) \<and> (\<forall>x\<in>set (?fr j). x < N_PAGES \<and> ?od x = j)"
      by (auto simp: distinct_removeAll)
  qed
  from I have "inv od ?fr" by (rule inv_remove)
  then have B': "no_free_buddies ?fr" by (simp add: inv_def)
  from H' D' C' L' B' show "inv ?od ?fr" by (simp add: inv_def)
  have "l = p \<or> l = b"
    using lr by (auto simp: min_def)
  then show "unlisted ?fr l"
    using notp by (auto simp: unlisted_def)
qed

subsection \<open>The allocated blocks under single steps\<close>

lemma alloc_set_split:
  assumes "od q = - 1" "od p \<noteq> - 1" "valid_order k" "p \<noteq> q"
  shows "alloc_set (od(p := k, q := k)) (fr(k := q # fr k)) = alloc_set od fr"
proof -
  from assms(3) have kk: "k \<noteq> - 1" by (simp add: valid_order_def MIN_ORDER_def)
  have u: "\<And>i. i \<noteq> q \<Longrightarrow> unlisted (fr(k := q # fr k)) i \<longleftrightarrow> unlisted fr i"
    by (auto simp: unlisted_def)
  have nq: "\<not> unlisted (fr(k := q # fr k)) q"
    using assms(3) by (auto simp: unlisted_def)
  show ?thesis
    unfolding alloc_set_def using assms kk u nq by auto
qed

lemma alloc_set_merge:
  assumes "l \<noteq> r" "l = p \<and> r = b \<or> l = b \<and> r = p" "unlisted fr p" "b \<in> set (fr k)"
    "valid_order k" "od p \<noteq> - 1" "l < N_PAGES"
  shows "alloc_set (od(r := - 1, l := k + 1)) (\<lambda>j. removeAll b (fr j))
       = insert l (alloc_set od fr - {p})"
proof -
  from assms(5) have kk: "k + 1 \<noteq> - 1" by (simp add: valid_order_def MIN_ORDER_def)
  have u: "\<And>i. i \<noteq> b \<Longrightarrow> unlisted (\<lambda>j. removeAll b (fr j)) i \<longleftrightarrow> unlisted fr i"
    by (auto simp: unlisted_def)
  have ub: "unlisted (\<lambda>j. removeAll b (fr j)) b"
    by (simp add: unlisted_def)
  have nb: "\<not> unlisted fr b"
    using assms(4,5) by (auto simp: unlisted_def)
  have pb: "p \<noteq> b" using assms(3) nb by auto
  show ?thesis
  proof (rule set_eqI)
    fix i
    consider "i = l" | "i = r" | "i \<noteq> l" "i \<noteq> r" by blast
    then show "i \<in> alloc_set (od(r := - 1, l := k + 1)) (\<lambda>j. removeAll b (fr j))
        \<longleftrightarrow> i \<in> insert l (alloc_set od fr - {p})"
    proof cases
      case 1
      with assms kk u [of p] ub pb show ?thesis by (auto simp: alloc_set_def)
    next
      case 2
      with assms nb show ?thesis by (auto simp: alloc_set_def)
    next
      case 3
      with assms(2) have "i \<noteq> p" "i \<noteq> b" by auto
      with 3 u [of i] show ?thesis by (auto simp: alloc_set_def)
    qed
  qed
qed

lemma alloc_set_insert:
  assumes "valid_order k"
  shows "alloc_set od (fr(k := p # fr k)) = alloc_set od fr - {p}"
proof -
  have u: "\<And>i. i \<noteq> p \<Longrightarrow> unlisted (fr(k := p # fr k)) i \<longleftrightarrow> unlisted fr i"
    by (auto simp: unlisted_def)
  have np: "\<not> unlisted (fr(k := p # fr k)) p"
    using assms by (auto simp: unlisted_def)
  show ?thesis
  proof (rule set_eqI)
    fix i show "i \<in> alloc_set od (fr(k := p # fr k)) \<longleftrightarrow> i \<in> alloc_set od fr - {p}"
      using u [of i] np by (cases "i = p") (auto simp: alloc_set_def)
  qed
qed

lemma alloc_set_remove:
  assumes "p < N_PAGES" "od p \<noteq> - 1"
  shows "alloc_set od (\<lambda>j. removeAll p (fr j)) = insert p (alloc_set od fr - {p})"
proof -
  have u: "\<And>i. i \<noteq> p \<Longrightarrow> unlisted (\<lambda>j. removeAll p (fr j)) i \<longleftrightarrow> unlisted fr i"
    by (auto simp: unlisted_def)
  have up: "unlisted (\<lambda>j. removeAll p (fr j)) p"
    by (simp add: unlisted_def)
  show ?thesis
  proof (rule set_eqI)
    fix i show "i \<in> alloc_set od (\<lambda>j. removeAll p (fr j)) \<longleftrightarrow> i \<in> insert p (alloc_set od fr - {p})"
      using u [of i] up assms by (cases "i = p") (auto simp: alloc_set_def)
  qed
qed

subsection \<open>The assignments of the model, seen through \<open>ord\<close> and \<open>fl\<close>\<close>

lemma ord_set_order: "i < length (g_pages s) \<Longrightarrow> ord (set_order i k s) = (ord s)(i := k)"
  by (rule ext) (simp add: ord_def set_order_def nth_list_update)

lemma fl_set_order [simp]: "fl (set_order i k s) = fl s"
  by (rule ext) (simp add: fl_def set_order_def)

lemma g_memory_set_order [simp]: "g_memory (set_order i k s) = g_memory s"
  by (simp add: set_order_def)

lemma free_area_set_order [simp]: "free_area (set_order i k s) = free_area s"
  by (simp add: set_order_def)

lemma length_g_pages_set_order [simp]: "length (g_pages (set_order i k s)) = length (g_pages s)"
  by (simp add: set_order_def)

lemma addr_set_order [simp]: "addr (g_pages (set_order i k s) ! j) = addr (g_pages s ! j)"
  by (cases "i < length (g_pages s)") (simp_all add: set_order_def nth_list_update list_update_beyond)

lemma index_set_order [simp]: "index (g_pages (set_order i k s) ! j) = index (g_pages s ! j)"
  by (cases "i < length (g_pages s)") (simp_all add: set_order_def nth_list_update list_update_beyond)

lemma shape_set_order: "shape s \<Longrightarrow> shape (set_order i k s)"
  by (simp add: shape_def)

lemma ord_list_del [simp]: "ord (list_del p s) = ord s"
  by (rule ext) (simp add: ord_def list_del_def)

lemma g_pages_list_del [simp]: "g_pages (list_del p s) = g_pages s"
  by (simp add: list_del_def)

lemma g_memory_list_del [simp]: "g_memory (list_del p s) = g_memory s"
  by (simp add: list_del_def)

lemma entries_unlink [simp]: "entries (unlink p h) = removeAll p (entries h)"
  by (cases h) simp_all

lemma unlink_Zeroed [simp]: "unlink p h = Zeroed \<longleftrightarrow> h = Zeroed"
  by (cases h) simp_all

lemma fl_list_del: "shape s \<Longrightarrow> fl (list_del p s) = (\<lambda>k. removeAll p (fl s k))"
  by (rule ext) (simp add: fl_def list_del_def shape_lengths valid_order_simps)

lemma shape_list_del: "shape s \<Longrightarrow> shape (list_del p s)"
  by (simp add: shape_def list_del_def)

lemma list_add_shape:
  assumes "shape s" "valid_order k"
  obtains s' where "list_add p k s = Inr s'" "shape s'" "ord s' = ord s"
    "fl s' = (fl s)(k := p # fl s k)" "g_pages s' = g_pages s" "g_memory s' = g_memory s"
proof -
  from assms have n: "nat k < length (free_area s)" "0 \<le> k" "\<not> k < 0"
    by (simp_all add: shape_lengths valid_order_simps)
  from assms have "free_area s ! nat k \<noteq> Zeroed"
    by (rule shape_heads)
  then obtain xs where xs: "free_area s ! nat k = Linked xs"
    by (cases "free_area s ! nat k") simp_all
  let ?s = "s\<lparr>free_area := (free_area s)[nat k := Linked (p # xs)]\<rparr>"
  have 1: "list_add p k s = Inr ?s"
    using n xs by (simp add: list_add_def)
  from assms(2) have vk: "\<not> nat k < 12" by (rule valid_order_simps)
  have 2: "shape ?s"
    using assms(1) n vk by (auto simp: shape_def nth_list_update MIN_ORDER_def)
  have 3: "ord ?s = ord s"
    by (rule ext) (simp add: ord_def)
  have 4: "fl ?s = (fl s)(k := p # fl s k)"
  proof (rule ext)
    fix j show "fl ?s j = ((fl s)(k := p # fl s k)) j"
    proof (cases "valid_order j")
      case True
      then have "nat k = nat j \<longleftrightarrow> j = k"
        using assms(2) by (auto simp: valid_order_def MIN_ORDER_def)
      with True n xs assms(2) show ?thesis
        by (auto simp: fl_def nth_list_update)
    next
      case False
      with assms(2) show ?thesis by (auto simp: fl_def)
    qed
  qed
  from that [OF 1 2 3 4] show ?thesis by simp
qed

section \<open>Splitting\<close>

lemma BUDDY_ADDR_page:
  assumes "valid_order k"
  shows "BUDDY_ADDR (PAGE_TO_ADDR p) k = Inr (PAGE_TO_ADDR (p XOR bsize k))"
  using assms buddies_iff [of k p "p XOR bsize k"] by (simp add: buddies_def)

lemma ADDR_TO_PAGE_page [simp]: "ADDR_TO_PAGE (PAGE_TO_ADDR p) = Inr p"
  by (simp add: PAGE_TO_ADDR_def PAGE_SIZE_eq)

lemma PAGE_TO_ADDR_inject [simp]: "PAGE_TO_ADDR p = PAGE_TO_ADDR q \<longleftrightarrow> p = q"
  by (simp add: PAGE_TO_ADDR_def PAGE_SIZE_eq)

lemma PAGE_TO_ADDR_not_NULL [simp]: "PAGE_TO_ADDR p \<noteq> NULL"
  by (simp add: PAGE_TO_ADDR_def)

lemma splitBlock_step:
  assumes s: "shape s" and p: "p < N_PAGES" and k: "valid_order k" "valid_order (k + 1)"
    and al: "bsize (k + 1) dvd p" and ne: "tgt \<noteq> k + 1"
  obtains s5 where "splitBlock s (k + 1) tgt p = splitBlock s5 k tgt p" "shape s5"
    "ord s5 = (ord s)(p := k, p + bsize k := k)"
    "fl s5 = (\<lambda>j. if j = k then p # (p + bsize k) # removeAll p (fl s j)
                    else removeAll p (fl s j))"
    "g_memory s5 = g_memory s"
proof -
  let ?q = "p + bsize k"
  from k have bs: "bsize (k + 1) = 2 * bsize k"
    by (simp add: bsize_Suc valid_order_def)
  from aligned_block_in_range [OF al bsize_dvd_N [OF k(2)] p] bs
  have q: "?q < N_PAGES" using bsize_pos [of k] by linarith
  from al bs have x: "p XOR bsize k = ?q"
    by (simp add: bsize_def xor_pow_low)
  define s1 where "s1 = set_order p k s"
  define s2 where "s2 = set_order ?q k s1"
  define s3 where "s3 = list_del p s2"
  have len: "length (g_pages s) = N_PAGES" using s by (simp add: shape_def)
  have sh1: "shape s1" unfolding s1_def using s by (rule shape_set_order)
  have sh2: "shape s2" unfolding s2_def using sh1 by (rule shape_set_order)
  have sh3: "shape s3" unfolding s3_def using sh2 by (rule shape_list_del)
  from list_add_shape [OF sh3 k(1), of ?q] obtain s4 where s4: "list_add ?q k s3 = Inr s4"
    "shape s4" "ord s4 = ord s3" "fl s4 = (fl s3)(k := ?q # fl s3 k)" "g_memory s4 = g_memory s3"
    by blast
  from list_add_shape [OF s4(2) k(1), of p] obtain s5 where s5: "list_add p k s4 = Inr s5"
    "shape s5" "ord s5 = ord s4" "fl s5 = (fl s4)(k := p # fl s4 k)" "g_memory s5 = g_memory s4"
    by blast
  have a1: "addr (g_pages s ! p) = PAGE_TO_ADDR p"
    using s p by (simp add: shape_pages)
  note adds = s4(1) [unfolded s3_def s2_def s1_def] s5(1)
  have "splitBlock s (k + 1) tgt p = splitBlock s5 k tgt p"
    by (subst splitBlock.simps)
      (use ne p q len a1 x adds k(1) in \<open>simp add: Let_def BUDDY_ADDR_page\<close>)
  moreover have "ord s5 = (ord s)(p := k, ?q := k)"
    using len p q by (simp add: s5 s4 s3_def s2_def s1_def ord_set_order)
  moreover have "fl s5 = (\<lambda>j. if j = k then p # ?q # removeAll p (fl s j) else removeAll p (fl s j))"
    using sh2 by (auto simp: s5 s4 s3_def fl_list_del s2_def s1_def)
  moreover have "g_memory s5 = g_memory s"
    by (simp add: s5 s4 s3_def s2_def s1_def)
  ultimately show ?thesis using s5(2) that by blast
qed

lemma splitBlock_stop:
  assumes "shape s" "p < N_PAGES"
  shows "splitBlock s tgt tgt p = Inr (PAGE_TO_ADDR p, list_del p s)"
  using assms by (subst splitBlock.simps) (simp add: shape_def)

lemma bsize_less: "MIN_ORDER \<le> j \<Longrightarrow> j < k \<Longrightarrow> bsize j < bsize k"
  unfolding bsize_def by (intro power_strict_increasing) simp_all

lemma splitBlock_correct:
  assumes "shape s" "p < N_PAGES" "valid_order tgt" "tgt \<le> cur" "valid_order cur"
    "bsize cur dvd p"
  shows "\<exists>s'. splitBlock s cur tgt p = Inr (PAGE_TO_ADDR p, s') \<and> split_post s cur tgt p s'"
  using assms
proof (induction "nat (cur - tgt)" arbitrary: s cur)
  case 0
  then have eq: "cur = tgt" by simp
  have e: "\<And>j::int. (tgt \<le> j \<and> j < tgt) = False" by auto
  have "split_post s tgt tgt p (list_del p s)"
    using "0.prems"(1) by (simp add: split_post_def shape_list_del fl_list_del e)
  with "0.prems" eq show ?case
    by (simp add: splitBlock_stop)
next
  case (Suc n)
  define k where "k = cur - 1"
  then have cur: "cur = k + 1" by simp
  from Suc.hyps(2) Suc.prems have k: "valid_order k" "tgt \<le> k" "n = nat (k - tgt)" "tgt \<noteq> k + 1"
    unfolding valid_order_def cur by arith+
  let ?q = "p + bsize k"
  from k(1) have bs: "bsize (k + 1) = 2 * bsize k"
    by (simp add: bsize_Suc valid_order_def)
  with Suc.prems(6) have al: "bsize k dvd p"
    unfolding cur by (metis dvd_mult_right mult.commute)
  from splitBlock_step [OF Suc.prems(1,2) k(1) Suc.prems(5) [unfolded cur]
      Suc.prems(6) [unfolded cur] k(4)]
  obtain s5 where s5: "splitBlock s (k + 1) tgt p = splitBlock s5 k tgt p" "shape s5"
    "ord s5 = (ord s)(p := k, ?q := k)"
    "fl s5 = (\<lambda>j. if j = k then p # ?q # removeAll p (fl s j) else removeAll p (fl s j))"
    "g_memory s5 = g_memory s"
    by blast
  from Suc.hyps(1) [OF k(3) s5(2) Suc.prems(2,3) k(2,1) al]
  obtain s' where res: "splitBlock s5 k tgt p = Inr (PAGE_TO_ADDR p, s')"
    and post: "split_post s5 k tgt p s'"
    by blast
  have pq: "p \<noteq> ?q" by simp
  have o5p: "ord s5 p = k" using pq by (simp add: s5(3))
  have rm5: "(\<lambda>j. removeAll p (fl s5 j))
      = (\<lambda>j. removeAll p (fl s j))(k := ?q # removeAll p (fl s k))"
    by (rule ext) (simp add: s5(4))
  from post have sh: "shape s'" and gm: "g_memory s' = g_memory s"
    by (simp_all add: split_post_def s5(5))
  from post have "fl s' = (\<lambda>j. if tgt \<le> j \<and> j < k then (p + bsize j) # removeAll p (fl s5 j)
      else removeAll p (fl s5 j))"
    by (simp add: split_post_def)
  then have f: "fl s' = (\<lambda>j. if tgt \<le> j \<and> j < cur then (p + bsize j) # removeAll p (fl s j)
      else removeAll p (fl s j))"
    using k(2) by (auto simp: s5(4) cur intro!: ext)
  from post o5p k(4) have op: "ord s' p = (if tgt = cur then ord s p else tgt)"
    by (auto simp: split_post_def cur)
  from post have c5: "\<And>i. i \<noteq> p \<Longrightarrow> (\<forall>j. tgt \<le> j \<and> j < k \<longrightarrow> i \<noteq> p + bsize j)
      \<Longrightarrow> ord s' i = ord s5 i"
    by (simp add: split_post_def)
  have "\<forall>j. tgt \<le> j \<and> j < k \<longrightarrow> ?q \<noteq> p + bsize j"
  proof (intro allI impI)
    fix j assume "tgt \<le> j \<and> j < k"
    with Suc.prems(3) have "bsize j < bsize k"
      by (intro bsize_less) (simp_all add: valid_order_def)
    then show "?q \<noteq> p + bsize j" by simp
  qed
  from c5 [OF _ this] have oq: "ord s' ?q = k"
    by (simp add: s5(3))
  from post have "\<forall>j. tgt \<le> j \<and> j < k \<longrightarrow> ord s' (p + bsize j) = j"
    by (simp add: split_post_def)
  with oq have b: "\<forall>j. tgt \<le> j \<and> j < cur \<longrightarrow> ord s' (p + bsize j) = j"
    unfolding cur by (metis less_le zless_add1_eq)
  have c: "\<forall>i. i \<noteq> p \<and> (\<forall>j. tgt \<le> j \<and> j < cur \<longrightarrow> i \<noteq> p + bsize j) \<longrightarrow> ord s' i = ord s i"
  proof (intro allI impI)
    fix i assume i: "i \<noteq> p \<and> (\<forall>j. tgt \<le> j \<and> j < cur \<longrightarrow> i \<noteq> p + bsize j)"
    with k(2) have "i \<noteq> ?q" by (auto simp: cur)
    moreover from i have "\<forall>j. tgt \<le> j \<and> j < k \<longrightarrow> i \<noteq> p + bsize j" by (simp add: cur)
    ultimately show "ord s' i = ord s i"
      using c5 [of i] i by (simp add: s5(3))
  qed
  have d: "inv (ord s') (fl s') \<and>
      alloc_set (ord s') (fl s') = alloc_set (ord s) (\<lambda>j. removeAll p (fl s j))"
    if I: "inv (ord s) (\<lambda>j. removeAll p (fl s j))" and o: "ord s p = cur"
  proof -
    let ?fr = "\<lambda>j. removeAll p (fl s j)"
    have u: "unlisted ?fr p" by (rule unlisted_remove)
    from split_step [OF I Suc.prems(2) o [unfolded cur] k(1) u]
    have oq: "ord s ?q = - 1"
      and I5: "inv ((ord s)(p := k, ?q := k)) (?fr(k := ?q # ?fr k))"
      by simp_all
    from I5 have "inv (ord s5) (\<lambda>j. removeAll p (fl s5 j))"
      by (simp add: s5(3) rm5)
    with post o5p have "inv (ord s') (fl s')"
      and "alloc_set (ord s') (fl s') = alloc_set (ord s5) (\<lambda>j. removeAll p (fl s5 j))"
      unfolding split_post_def by blast+
    moreover have "alloc_set (ord s5) (\<lambda>j. removeAll p (fl s5 j)) = alloc_set (ord s) ?fr"
      unfolding s5(3) rm5 using oq o k(1) pq Suc.prems(5)
      by (intro alloc_set_split) (simp_all add: valid_order_simps)
    ultimately show ?thesis by simp
  qed
  from sh gm f op b c d have "split_post s cur tgt p s'"
    unfolding split_post_def by blast
  with s5(1) res show ?case by (simp add: cur)
qed

section \<open>Allocation\<close>

text \<open>
  In a state of the right shape the scan of \<^verbatim>\<open>buddy_alloc\<close> returns: it stops at the
  first non-empty list from the requested order on, or, when all of them are empty, at
  order \<open>0\<close>, whose head was never initialised.
\<close>

lemma list_empty_fl:
  assumes "shape s" "valid_order k"
  shows "list_empty (free_area s ! nat k) \<longleftrightarrow> fl s k = []"
  using shape_heads [OF assms] assms(2)
  by (cases "free_area s ! nat k") (simp_all add: fl_def)

lemma find_free_wrap:
  assumes "shape s"
  shows "find_free (free_area s) 0 = Some (Inr 0)"
proof -
  from assms have "free_area s ! 0 = Zeroed"
    by (simp add: shape_def MIN_ORDER_def)
  with assms show ?thesis
    by (subst find_free.simps) (simp add: shape_lengths MAX_ORDER_def)
qed

lemma find_free_found:
  assumes "shape s" "valid_order k" "k \<le> j" "valid_order j" "fl s j \<noteq> []"
    "\<forall>i. k \<le> i \<and> i < j \<longrightarrow> fl s i = []"
  shows "find_free (free_area s) k = Some (Inr j)"
  using assms(2,3,6)
proof (induction "nat (j - k)" arbitrary: k)
  case 0
  then have "k = j" by simp
  with assms show ?case
    by (subst find_free.simps)
       (simp add: list_empty_fl valid_order_simps valid_order_bounds shape_lengths)
next
  case (Suc n)
  then have kj: "k < j" by simp
  with Suc.prems assms(4) have e: "fl s k = []" and k1: "valid_order (k + 1)" "k \<noteq> MAX_ORDER"
    by (auto simp: valid_order_def)
  from Suc.hyps(2) have n: "n = nat (j - (k + 1))" by simp
  from Suc.prems(3) have "\<forall>i. k + 1 \<le> i \<and> i < j \<longrightarrow> fl s i = []" by simp
  from Suc.hyps(1) [OF n k1(1) _ this] kj
  have "find_free (free_area s) (k + 1) = Some (Inr j)" by simp
  with Suc.prems(1) e k1(2) assms(1) show ?case
    by (subst find_free.simps)
       (simp add: list_empty_fl valid_order_simps valid_order_bounds shape_lengths)
qed

lemma find_free_exhausted:
  assumes "shape s" "valid_order k" "\<forall>i. k \<le> i \<and> i \<le> MAX_ORDER \<longrightarrow> fl s i = []"
  shows "find_free (free_area s) k = Some (Inr 0)"
  using assms(2,3)
proof (induction "nat (MAX_ORDER - k)" arbitrary: k)
  case 0
  then have "k = MAX_ORDER" by (simp add: valid_order_def)
  with 0 assms(1) find_free_wrap [OF assms(1)] show ?case
    by (subst find_free.simps)
       (simp add: list_empty_fl valid_order_simps valid_order_bounds shape_lengths)
next
  case (Suc n)
  then have k1: "valid_order (k + 1)" "k \<noteq> MAX_ORDER" "n = nat (MAX_ORDER - (k + 1))"
    by (auto simp: valid_order_def)
  from Suc.prems have e: "fl s k = []" by (simp add: valid_order_def)
  from Suc.prems(2) have "\<forall>i. k + 1 \<le> i \<and> i \<le> MAX_ORDER \<longrightarrow> fl s i = []" by simp
  from Suc.hyps(1) [OF k1(3,1) this]
  have "find_free (free_area s) (k + 1) = Some (Inr 0)" .
  with Suc.prems(1) e k1(2) assms(1) show ?case
    by (subst find_free.simps)
       (simp add: list_empty_fl valid_order_simps valid_order_bounds shape_lengths)
qed

lemma first_free_order:
  assumes "(k::int) \<le> j" "fr j \<noteq> []"
  shows "\<exists>j0. k \<le> j0 \<and> j0 \<le> j \<and> fr j0 \<noteq> [] \<and> (\<forall>i. k \<le> i \<and> i < j0 \<longrightarrow> fr i = [])"
  using assms(1)
proof (induction "nat (j - k)" arbitrary: k)
  case 0
  then have "k = j" by simp
  with assms(2) show ?case by (intro exI [of _ j]) auto
next
  case (Suc n)
  show ?case
  proof (cases "fr k = []")
    case False
    with Suc.prems show ?thesis by (intro exI [of _ k]) auto
  next
    case True
    from Suc.hyps(2) have "n = nat (j - (k + 1))" "k + 1 \<le> j" by simp_all
    from Suc.hyps(1) [OF this] obtain j0 where j0: "k + 1 \<le> j0" "j0 \<le> j" "fr j0 \<noteq> []"
      "\<forall>i. k + 1 \<le> i \<and> i < j0 \<longrightarrow> fr i = []"
      by blast
    have "\<forall>i. k \<le> i \<and> i < j0 \<longrightarrow> fr i = []"
    proof (intro allI impI)
      fix i assume i: "k \<le> i \<and> i < j0"
      show "fr i = []"
      proof (cases "i = k")
        case True
        with \<open>fr k = []\<close> show ?thesis by simp
      next
        case False
        with i j0(4) show ?thesis by simp
      qed
    qed
    with j0 show ?thesis by (intro exI [of _ j0]) simp
  qed
qed

lemma getOrder_loop_ge: "getOrder_loop sz k = Inr r \<Longrightarrow> k \<le> r"
proof (induction sz k rule: getOrder_loop.induct)
  case (1 sz k)
  show ?case
  proof (cases "shl1 k")
    case (Inl f)
    with "1.prems" show ?thesis by (subst (asm) getOrder_loop.simps) simp
  next
    case (Inr b)
    show ?thesis
    proof (cases "sz \<noteq> 0 \<and> c_div b sz < 1")
      case True
      with Inr "1.prems" have "getOrder_loop sz (k + 1) = Inr r"
        by (subst (asm) getOrder_loop.simps) simp
      with "1.IH" [OF Inr] True show ?thesis by simp
    next
      case False
      with Inr "1.prems" show ?thesis
        by (subst (asm) getOrder_loop.simps) (auto split: if_splits)
    qed
  qed
qed

lemma getOrder_result: "getOrder sz = Inr k \<Longrightarrow> k = - 1 \<or> valid_order k"
  by (auto simp: getOrder_def valid_order_def split: sum.splits if_splits dest: getOrder_loop_ge)

lemma buddy_alloc_too_large:
  "getOrder sz = Inr (- 1) \<Longrightarrow> buddy_alloc s sz = Some (Inr (NULL, s))"
  by (simp add: buddy_alloc_def)

lemma buddy_alloc_fault:
  "getOrder sz = Inl f \<Longrightarrow> buddy_alloc s sz = Some (Inl f)"
  by (simp add: buddy_alloc_def)

lemma buddy_alloc_exhausted:
  assumes "shape s" "getOrder sz = Inr k" "valid_order k"
    "\<forall>i. k \<le> i \<and> i \<le> MAX_ORDER \<longrightarrow> fl s i = []"
  shows "buddy_alloc s sz = Some (Inl NullDereference)"
proof -
  from assms(1) have "free_area s ! 0 = Zeroed"
    by (simp add: shape_def MIN_ORDER_def)
  with assms find_free_exhausted [OF assms(1,3,4)] show ?thesis
    by (simp add: buddy_alloc_def valid_order_simps shape_lengths)
qed

lemma buddy_alloc_found:
  assumes wf: "wf_state s" and g: "getOrder sz = Inr k" and k: "valid_order k"
    and j: "k \<le> j" "valid_order j" "fl s j = p # ps" "\<forall>i. k \<le> i \<and> i < j \<longrightarrow> fl s i = []"
  obtains s' where "buddy_alloc s sz = Some (Inr (PAGE_TO_ADDR p, s'))"
    "splitBlock s j k p = Inr (PAGE_TO_ADDR p, s')" "split_post s j k p s'"
    "wf_state s'" "allocated s' = insert p (allocated s)" "p \<notin> allocated s" "p < N_PAGES"
    "ord s p = j"
proof -
  from wf have sh: "shape s" and I: "inv (ord s) (fl s)"
    by (simp_all add: wf_state_inv)
  from I j have p: "p < N_PAGES" "ord s p = j"
    by (auto simp: inv_def lists_ok_def)
  with I j(2) have al: "bsize j dvd p"
    by (auto simp: inv_def heads_ok_def valid_order_simps)
  from j(3) have "fl s j \<noteq> []" by simp
  from find_free_found [OF sh k j(1,2) this j(4)]
  have ff: "find_free (free_area s) k = Some (Inr j)" .
  from j(2,3) have "entries (free_area s ! nat j) = p # ps"
    by (simp add: fl_def)
  then have fe: "first_entry (free_area s ! nat j) = Inr p"
    by (cases "free_area s ! nat j") simp_all
  from splitBlock_correct [OF sh p(1) k j(1,2) al]
  obtain s' where sp: "splitBlock s j k p = Inr (PAGE_TO_ADDR p, s')"
    and post: "split_post s j k p s'"
    by blast
  have alloc: "buddy_alloc s sz = Some (Inr (PAGE_TO_ADDR p, s'))"
    using g k j(2) ff fe p(1) sh sp
    by (simp add: buddy_alloc_def valid_order_simps shape_lengths shape_pages N_PAGES_eq)
  from I have "inv (ord s) (\<lambda>j. removeAll p (fl s j))" by (rule inv_remove)
  with post p(2) have I': "inv (ord s') (fl s')"
    and a: "alloc_set (ord s') (fl s') = alloc_set (ord s) (\<lambda>j. removeAll p (fl s j))"
    unfolding split_post_def by blast+
  from post have "shape s'" by (simp add: split_post_def)
  with I' have wf': "wf_state s'" by (simp add: wf_state_inv)
  have listed: "\<not> unlisted (fl s) p"
    using j(2,3) by (auto simp: unlisted_def)
  then have na: "p \<notin> allocated s"
    by (simp add: allocated_def alloc_set_def)
  from p j(2) have "ord s p \<noteq> - 1" by (simp add: valid_order_simps)
  from alloc_set_remove [of p "ord s" "fl s", OF p(1) this] a na
  have "allocated s' = insert p (allocated s)"
    by (simp add: allocated_def)
  with alloc sp post wf' na p that show ?thesis by blast
qed

lemma buddy_alloc_cases:
  assumes wf: "wf_state s" and g: "getOrder sz = Inr k" and k: "valid_order k"
  obtains
    (exhausted) "\<forall>i. k \<le> i \<and> i \<le> MAX_ORDER \<longrightarrow> fl s i = []"
      "buddy_alloc s sz = Some (Inl NullDereference)"
  | (found) j p ps s' where "k \<le> j" "valid_order j" "fl s j = p # ps"
      "\<forall>i. k \<le> i \<and> i < j \<longrightarrow> fl s i = []"
      "buddy_alloc s sz = Some (Inr (PAGE_TO_ADDR p, s'))"
      "splitBlock s j k p = Inr (PAGE_TO_ADDR p, s')" "split_post s j k p s'"
      "wf_state s'" "allocated s' = insert p (allocated s)" "p \<notin> allocated s" "p < N_PAGES"
      "ord s p = j"
proof (cases "\<forall>i. k \<le> i \<and> i \<le> MAX_ORDER \<longrightarrow> fl s i = []")
  case True
  from wf have "shape s" by (simp add: wf_state_inv)
  from buddy_alloc_exhausted [OF this g k True] True exhausted show ?thesis by blast
next
  case False
  then obtain j1 where j1: "k \<le> j1" "j1 \<le> MAX_ORDER" "fl s j1 \<noteq> []" by blast
  from first_free_order [of k j1 "fl s", OF j1(1,3)] obtain j where j: "k \<le> j" "j \<le> j1" "fl s j \<noteq> []"
    "\<forall>i. k \<le> i \<and> i < j \<longrightarrow> fl s i = []"
    by blast
  from j(1,2) j1(2) k have vj: "valid_order j" by (simp add: valid_order_def)
  from j(3) obtain p ps where ps: "fl s j = p # ps" by (cases "fl s j") simp_all
  from buddy_alloc_found [OF wf g k j(1) vj ps j(4)] j(1,4) vj ps found show ?thesis
    by metis
qed

lemma buddy_alloc_returns:
  assumes "wf_state s"
  shows "\<exists>r. buddy_alloc s sz = Some r"
proof (cases "getOrder sz")
  case (Inl f)
  then show ?thesis by (simp add: buddy_alloc_fault)
next
  case (Inr k)
  from getOrder_result [OF this] show ?thesis
  proof
    assume "k = - 1"
    with Inr show ?thesis by (simp add: buddy_alloc_too_large)
  next
    assume "valid_order k"
    from buddy_alloc_cases [OF assms Inr this] show ?thesis by metis
  qed
qed

lemma buddy_alloc_wf:
  assumes wf: "wf_state s" and r: "buddy_alloc s sz = Some (Inr (a, s'))"
  shows "wf_state s' \<and> g_memory s' = g_memory s \<and>
    (a = NULL \<and> s' = s \<or>
     (\<exists>p. a = PAGE_TO_ADDR p \<and> p \<notin> allocated s \<and> allocated s' = insert p (allocated s)))"
proof (cases "getOrder sz")
  case (Inl f)
  with r show ?thesis by (simp add: buddy_alloc_fault)
next
  case (Inr k)
  from getOrder_result [OF this] show ?thesis
  proof
    assume "k = - 1"
    with Inr r wf show ?thesis by (simp add: buddy_alloc_too_large)
  next
    assume "valid_order k"
    then show ?thesis
    proof (rule buddy_alloc_cases [OF wf Inr], goal_cases)
      case 1
      with r show ?thesis by simp
    next
      case (2 j p ps t)
      with r have "a = PAGE_TO_ADDR p" "s' = t" by simp_all
      with 2 show ?thesis by (auto simp: split_post_def)
    qed
  qed
qed

section \<open>Freeing\<close>

lemma find_buddy_shape:
  assumes "shape s" "\<forall>t\<in>set xs. t < N_PAGES"
  shows "find_buddy (g_pages s) (PAGE_TO_ADDR b) xs = Inr (if b \<in> set xs then Some b else None)"
  using assms(2)
proof (induction xs)
  case Nil
  show ?case by simp
next
  case (Cons t ts)
  with assms(1) show ?case
    by (auto simp: shape_pages shape_lengths N_PAGES_eq)
qed

lemma allocatedD:
  assumes "wf_state s" "p \<in> allocated s"
  shows "p < N_PAGES" "valid_order (ord s p)" "unlisted (fl s) p" "bsize (ord s p) dvd p"
  using assms by (auto simp: allocated_def alloc_set_def wf_state_def heads_ok_def)

lemma buddy_free_insert:
  assumes wf: "wf_state s" and p: "p \<in> allocated s"
    and nb: "p XOR bsize (ord s p) \<notin> set (fl s (ord s p))"
  shows "buddy_free s (PAGE_TO_ADDR p) = list_add p (ord s p) s"
proof -
  let ?k = "ord s p"
  from wf have sh: "shape s" by (simp add: wf_state_def)
  note a = allocatedD [OF wf p]
  from shape_heads [OF sh a(2)] obtain xs where xs: "free_area s ! nat ?k = Linked xs"
    by (cases "free_area s ! nat ?k") simp_all
  with a(2) have fl: "fl s ?k = xs" by (simp add: fl_def)
  from wf a(2) fl have "\<forall>t\<in>set xs. t < N_PAGES"
    by (auto simp: wf_state_def lists_ok_def)
  from find_buddy_shape [OF sh this] nb fl
  have fb: "find_buddy (g_pages s) (PAGE_TO_ADDR (p XOR bsize ?k)) xs = Inr None"
    by simp
  show ?thesis
    using a(1,2) sh xs fb
    by (subst buddy_free.simps)
       (simp add: shape_pages shape_lengths N_PAGES_eq valid_order_simps BUDDY_ADDR_page
          Let_def flip: ord_def)
qed

lemma buddy_free_merge:
  assumes wf: "wf_state s" and p: "p \<in> allocated s"
    and b: "b = p XOR bsize (ord s p)" "b \<in> set (fl s (ord s p))"
  shows "buddy_free s (PAGE_TO_ADDR p) = buddy_free (merged p b s) (PAGE_TO_ADDR (min p b))"
    "wf_state (merged p b s)" "min p b \<in> allocated (merged p b s)"
    "ord (merged p b s) = (ord s)(max p b := - 1, min p b := ord s p + 1)"
    "fl (merged p b s) = (\<lambda>j. removeAll b (fl s j))"
    "allocated (merged p b s) = insert (min p b) (allocated s - {p})"
    "valid_order (ord s p + 1)" "g_memory (merged p b s) = g_memory s"
proof -
  let ?k = "ord s p" and ?l = "min p b" and ?r = "max p b"
  from wf have sh: "shape s" and I: "inv (ord s) (fl s)" by (simp_all add: wf_state_inv)
  note a = allocatedD [OF wf p]
  note m = merge_step [OF I a(1) refl a(2,3) b refl refl]
  from I a(2) b(2) have ob: "ord s b = ?k" and bN: "b < N_PAGES"
    by (auto simp: inv_def lists_ok_def)
  from shape_heads [OF sh a(2)] obtain xs where xs: "free_area s ! nat ?k = Linked xs"
    by (cases "free_area s ! nat ?k") simp_all
  with a(2) have fl: "fl s ?k = xs" by (simp add: fl_def)
  with b(2) have ne: "xs \<noteq> []" by auto
  from wf a(2) fl have "\<forall>t\<in>set xs. t < N_PAGES"
    by (auto simp: wf_state_def lists_ok_def)
  from find_buddy_shape [OF sh this] b fl
  have fb: "find_buddy (g_pages s) (PAGE_TO_ADDR (p XOR bsize ?k)) xs = Inr (Some b)"
    by simp
  have lr: "(if int b < int p then b else p) = ?l" "(if int b < int p then p else b) = ?r"
    by (simp_all add: min_def max_def)
  have len: "length (g_pages s) = N_PAGES" using sh by (simp add: shape_def)
  have ol: "ord s ?l = ?k"
    using ob by (simp add: min_def)
  have "ord (set_order ?r (- 1) s) ?l = ord s ?l"
    using m(3,4) len by (simp add: ord_set_order)
  with ol have o1: "order (g_pages (set_order ?r (- 1) s) ! ?l) + 1 = ?k + 1"
    by (simp add: ord_def)
  show om: "ord (merged p b s) = (ord s)(?r := - 1, ?l := ?k + 1)"
    using m(2,3) len by (simp add: merged_def ord_set_order)
  have shm: "shape (merged p b s)"
    unfolding merged_def using sh by (intro shape_list_del shape_set_order)
  show flm: "fl (merged p b s) = (\<lambda>j. removeAll b (fl s j))"
    unfolding merged_def using sh by (simp add: fl_list_del shape_set_order)
  from m(5) shm om flm show wfm: "wf_state (merged p b s)"
    by (simp add: wf_state_inv)
  show k1: "valid_order (?k + 1)" by (rule m(1))
  from m(2,6) k1 show "?l \<in> allocated (merged p b s)"
    by (simp add: allocated_def alloc_set_def om flm valid_order_simps)
  have "?l = p \<and> ?r = b \<or> ?l = b \<and> ?r = p"
    by (auto simp: min_def max_def)
  from alloc_set_merge [OF m(4) this a(3) b(2) a(2) _ m(2)] a(2)
  show "allocated (merged p b s) = insert ?l (allocated s - {p})"
    by (simp add: allocated_def om flm valid_order_simps)
  show "g_memory (merged p b s) = g_memory s"
    by (simp add: merged_def)
  have o3: "order (g_pages (merged p b s) ! ?l) = ?k + 1"
    using om by (simp add: ord_def fun_eq_iff)
  have o2: "ord (set_order ?l (?k + 1) (set_order ?r (- 1) s)) ?l = ?k + 1"
    using len m(2) by (simp add: ord_set_order)
  have a3: "addr (g_pages (merged p b s) ! ?l) = PAGE_TO_ADDR ?l"
    using shm m(2) by (simp add: shape_pages)
  show "buddy_free s (PAGE_TO_ADDR p) = buddy_free (merged p b s) (PAGE_TO_ADDR ?l)"
    using a(1,2) sh xs ne fb bN lr o1 k1 o2 o3 a3
    by (subst buddy_free.simps)
       (simp add: shape_pages shape_lengths N_PAGES_eq valid_order_simps BUDDY_ADDR_page
          valid_order_bounds Let_def flip: ord_def merged_def)
qed

lemma buddy_free_correct:
  assumes "wf_state s" "p \<in> allocated s"
  shows "\<exists>s'. buddy_free s (PAGE_TO_ADDR p) = Inr s' \<and> wf_state s' \<and>
    allocated s' = allocated s - {p} \<and> g_memory s' = g_memory s"
  using assms
proof (induction "nat (MAX_ORDER - ord s p)" arbitrary: s p rule: less_induct)
  case less
  let ?k = "ord s p" and ?b = "p XOR bsize (ord s p)"
  note wf = less.prems(1) and p = less.prems(2)
  from wf have sh: "shape s" and I: "inv (ord s) (fl s)" by (simp_all add: wf_state_inv)
  note a = allocatedD [OF wf p]
  show ?case
  proof (cases "?b \<in> set (fl s ?k)")
    case False
    from list_add_shape [OF sh a(2), of p] obtain s' where s': "list_add p ?k s = Inr s'"
      "shape s'" "ord s' = ord s" "fl s' = (fl s)(?k := p # fl s ?k)" "g_memory s' = g_memory s"
      by blast
    from inv_insert [OF I a(1) refl a(2,3) False] s' have "wf_state s'"
      by (simp add: wf_state_inv)
    moreover from alloc_set_insert [OF a(2), of "ord s" "fl s" p] s'
    have "allocated s' = allocated s - {p}"
      by (simp add: allocated_def)
    ultimately show ?thesis
      using buddy_free_insert [OF wf p False] s' by simp
  next
    case True
    note m = buddy_free_merge [OF wf p refl True]
    let ?l = "min p ?b" and ?m = "merged p ?b s"
    have lr: "?l \<noteq> max p ?b"
      using xor_bsize_neq [of p ?k] by (simp add: min_def max_def)
    have "ord ?m ?l = ?k + 1"
      by (simp add: m(4))
    with m(7) a(2) have "nat (MAX_ORDER - ord ?m ?l) < nat (MAX_ORDER - ?k)"
      by (simp add: valid_order_def)
    from less.hyps [OF this m(2,3)]
    obtain s' where s': "buddy_free ?m (PAGE_TO_ADDR ?l) = Inr s'" "wf_state s'"
      "allocated s' = allocated ?m - {?l}" "g_memory s' = g_memory ?m"
      by blast
    have "?b \<notin> allocated s"
      using True a(2) by (auto simp: allocated_def alloc_set_def unlisted_def)
    then have "insert ?l (allocated s - {p}) - {?l} = allocated s - {p}"
      by (auto simp: min_def)
    with s' m(1,6,8) show ?thesis by simp
  qed
qed

lemma live_ok_fresh: "live_ok fresh []"
  by (simp add: live_ok_def wf_fresh allocated_fresh)

lemma live_ok_alloc:
  assumes "live_ok s live" "buddy_alloc s sz = Some (Inr (a, s'))"
  shows "live_ok s' (if a = NULL then live else a # live)"
proof -
  from assms(1) have wf: "wf_state s" by (simp add: live_ok_def)
  from buddy_alloc_wf [OF wf assms(2)] assms(1) show ?thesis
    by (auto simp: live_ok_def)
qed

lemma live_ok_free:
  assumes "live_ok s live" "a \<in> set live" "buddy_free s a = Inr s'"
  shows "live_ok s' (remove1 a live)"
proof -
  from assms(1,2) obtain p where p: "a = PAGE_TO_ADDR p" "p \<in> allocated s"
    by (auto simp: live_ok_def)
  from assms(1) have wf: "wf_state s" by (simp add: live_ok_def)
  from buddy_free_correct [OF wf p(2)] assms(3) p(1)
  have s': "wf_state s'" "allocated s' = allocated s - {p}" "g_memory s' = g_memory s"
    by auto
  have "PAGE_TO_ADDR ` (allocated s - {p}) = PAGE_TO_ADDR ` allocated s - {a}"
    unfolding p(1) by (auto simp: image_iff)
  with assms(1) s' show ?thesis
    by (simp add: live_ok_def)
qed

lemma run_live_ok:
  "live_ok s live \<Longrightarrow> run s live cs = Some (s', live') \<Longrightarrow> live_ok s' live'"
proof (induction cs arbitrary: s live)
  case Nil
  then show ?case by simp
next
  case (Cons c cs)
  show ?case
  proof (cases c)
    case (Alloc sz)
    with Cons.prems(2) obtain a t where t: "buddy_alloc s sz = Some (Inr (a, t))"
      "run t (if a = NULL then live else a # live) cs = Some (s', live')"
      by (auto split: option.splits sum.splits)
    from Cons.IH [OF live_ok_alloc [OF Cons.prems(1) t(1)] t(2)] show ?thesis .
  next
    case (Free a)
    with Cons.prems(2) obtain t where t: "a \<in> set live" "buddy_free s a = Inr t"
      "run t (remove1 a live) cs = Some (s', live')"
      by (auto split: if_splits sum.splits)
    from Cons.IH [OF live_ok_free [OF Cons.prems(1) t(1,2)] t(3)] show ?thesis .
  qed
qed

lemma reachable_live_ok: "reachable s live \<Longrightarrow> live_ok s live"
  unfolding reachable_def using run_live_ok [OF live_ok_fresh] by blast

lemma reachable_wf: "reachable s live \<Longrightarrow> wf_state s"
  by (drule reachable_live_ok) (simp add: live_ok_def)

section \<open>When every block is free\<close>

text \<open>
  If all blocks are free, take one of the smallest order below \<open>MAX_ORDER\<close>: the block
  that covers its buddy range is either that buddy, free at the same order, or a larger
  block that would also contain the block itself. Both contradict the invariant, so the
  only block is the whole arena.
\<close>

lemma dvd_less_step:
  assumes "d dvd x" "d dvd y" "x < y + d"
  shows "x \<le> (y::nat)"
proof -
  from assms(1,2) obtain a c where "x = d * a" "y = d * c" by (auto elim!: dvdE)
  with assms(3) have "d * a < d * (c + 1)" by simp
  then have "a < c + 1" by (rule mult_less_cancel1 [THEN iffD1, THEN conjunct2])
  with \<open>x = d * a\<close> \<open>y = d * c\<close> show ?thesis by simp
qed

lemma all_free_orders:
  assumes I: "inv od fr" and A: "alloc_set od fr = {}"
    and i: "i < N_PAGES" "od i \<noteq> - 1"
  shows "od i = MAX_ORDER"
proof (rule ccontr)
  assume neq: "od i \<noteq> MAX_ORDER"
  from I have H: "heads_ok od" and D: "disjoint_blocks od" and C: "covered od"
    and L: "lists_ok od fr" and B: "no_free_buddies fr"
    by (simp_all add: inv_def)
  have free: "h \<in> set (fr (od h))" "valid_order (od h)" "bsize (od h) dvd h"
    if "h < N_PAGES" "od h \<noteq> - 1" for h
  proof -
    from that H show v: "valid_order (od h)" and "bsize (od h) dvd h"
      by (auto simp: heads_ok_def)
    from that A have "\<not> unlisted fr h" by (auto simp: alloc_set_def)
    then obtain j where "valid_order j" "h \<in> set (fr j)" by (auto simp: unlisted_def)
    with L show "h \<in> set (fr (od h))" by (auto simp: lists_ok_def)
  qed
  let ?P = "\<lambda>h. h < N_PAGES \<and> od h \<noteq> - 1 \<and> od h \<noteq> MAX_ORDER"
  from i neq have "?P i" by simp
  from ex_has_least_nat [of ?P i "\<lambda>h. nat (od h)", OF this]
  obtain x where x: "?P x" and least: "\<And>y. ?P y \<Longrightarrow> nat (od x) \<le> nat (od y)"
    by blast
  define k where "k = od x"
  define n where "n = bsize k"
  define b where "b = x XOR n"
  from x free [of x] have xv: "valid_order k" and xf: "x \<in> set (fr k)" and xal: "n dvd x"
    by (simp_all add: k_def n_def)
  from xv x have k1: "valid_order (k + 1)"
    by (simp add: valid_order_def k_def)
  from xv have bs: "bsize (k + 1) = 2 * n"
    by (simp add: bsize_Suc valid_order_def n_def)
  from buddy_pair [OF xal [unfolded n_def]] obtain l where l: "2 * n dvd l" "min x b = l"
    "max x b = l + n"
    unfolding b_def n_def by metis
  from l(2) x have lN: "l < N_PAGES" by (simp add: min_def split: if_splits)
  from bsize_dvd_N [OF k1] bs have "2 * n dvd N_PAGES" by simp
  from aligned_block_in_range [OF l(1) this lN] have rng: "l + 2 * n \<le> N_PAGES" .
  have npos: "0 < n" by (simp add: n_def)
  from l(3) have "b \<le> l + n" by (simp add: max_def split: if_splits)
  with rng npos have bN: "b < N_PAGES" by simp
  have lb: "l \<le> b" "l \<le> x" using l(2) by (simp_all add: min_def split: if_splits)
  have xb: "b < l + 2 * n" "x < l + 2 * n"
    using l(3) npos by (simp_all add: max_def split: if_splits)
  from l(1) have ndl: "n dvd l" by (metis dvd_mult_right mult.commute)
  have ndb: "n dvd b"
    using l(2,3) ndl xal by (auto simp: min_def max_def split: if_splits)
  from C bN obtain h where h: "h \<le> b" "od h \<noteq> - 1" "b < h + bsize (od h)"
    by (auto simp: covered_def)
  with bN have hN: "h < N_PAGES" by simp
  note hf = free [OF hN h(2)]
  have kh: "k \<le> od h"
  proof (cases "od h = MAX_ORDER")
    case True
    with xv show ?thesis by (simp add: valid_order_def)
  next
    case False
    with hN h(2) have "?P h" by simp
    from least [OF this] xv [THEN valid_order_simps(1)] hf(2) [THEN valid_order_simps(1)]
    show ?thesis unfolding k_def by arith
  qed
  show False
  proof (cases "od h = k")
    case True
    with h(3) hf(3) have "b < h + n" "n dvd h" by (simp_all add: n_def)
    from dvd_less_step [OF ndb this(2,1)] h(1) have "h = b" by simp
    with hf(1) True have "b \<in> set (fr k)" by simp
    moreover have "buddies k x b"
      using xv by (simp add: buddies_iff b_def n_def)
    ultimately show False
      using B xv xf by (auto simp: no_free_buddies_def)
  next
    case False
    with kh have "k + 1 \<le> od h" by simp
    then have "bsize (k + 1) dvd bsize (od h)" by (rule bsize_mono)
    with bs have m2: "2 * n dvd bsize (od h)" by simp
    from m2 hf(3) have h2: "2 * n dvd h" by (rule dvd_trans)
    from h(1) xb(1) have "h < l + 2 * n" by simp
    from dvd_less_step [OF h2 l(1) this] have hl: "h \<le> l" .
    from h2 m2 have e2: "2 * n dvd h + bsize (od h)" by simp
    from l(1) have "2 * n dvd l + 2 * n" by simp
    moreover from lb(1) h(3) have "l + 2 * n < h + bsize (od h) + 2 * n" by simp
    ultimately have "l + 2 * n \<le> h + bsize (od h)"
      using e2 by (intro dvd_less_step)
    with xb(2) have xin: "x < h + bsize (od h)" by simp
    from False have "h \<noteq> x" by (auto simp: k_def)
    with hl lb(2) have "h < x" by simp
    with D hN x h(2) have "h + bsize (od h) \<le> x"
      by (simp add: disjoint_blocks_def)
    with xin show False by simp
  qed
qed

lemma all_free_single:
  assumes I: "inv od fr" and A: "alloc_set od fr = {}"
  shows "od 0 = MAX_ORDER" "\<And>i. i < N_PAGES \<Longrightarrow> i \<noteq> 0 \<Longrightarrow> od i = - 1"
    "\<And>k. valid_order k \<Longrightarrow> fr k = (if k = MAX_ORDER then [0] else [])"
proof -
  from I have H: "heads_ok od" and C: "covered od" and L: "lists_ok od fr"
    by (simp_all add: inv_def)
  have zero: "i = 0" if "i < N_PAGES" "od i \<noteq> - 1" for i
  proof -
    from all_free_orders [OF I A that] have "od i = MAX_ORDER" .
    with H that have "N_PAGES dvd i" by (auto simp: heads_ok_def bsize_MAX)
    with that(1) show ?thesis by (auto dest: dvd_imp_le)
  qed
  from C have "0 < N_PAGES \<longrightarrow> (\<exists>i\<le>0. od i \<noteq> - 1 \<and> 0 < i + bsize (od i))"
    unfolding covered_def by blast
  then have "\<exists>i\<le>0. od i \<noteq> - 1 \<and> 0 < i + bsize (od i)"
    by (simp add: N_PAGES_eq)
  then have h0: "od 0 \<noteq> - 1" by simp
  then show o0: "od 0 = MAX_ORDER"
    using all_free_orders [OF I A, of 0] by (simp add: N_PAGES_eq)
  show "od i = - 1" if "i < N_PAGES" "i \<noteq> 0" for i
    using zero [of i] that by blast
  show "fr k = (if k = MAX_ORDER then [0] else [])" if k: "valid_order k" for k
  proof -
    from L k have d: "distinct (fr k)" and e: "\<forall>p\<in>set (fr k). p < N_PAGES \<and> od p = k"
      by (simp_all add: lists_ok_def)
    from e k zero have sub: "set (fr k) \<subseteq> {0}"
      by (auto simp: valid_order_simps)
    show ?thesis
    proof (cases "k = MAX_ORDER")
      case False
      have "p \<notin> set (fr k)" for p
      proof
        assume p: "p \<in> set (fr k)"
        with sub have "p = 0" by auto
        with p e o0 False show False by auto
      qed
      then have "fr k = []" by (cases "fr k") auto
      with False show ?thesis by simp
    next
      case True
      have "(0::nat) < N_PAGES" by (simp add: N_PAGES_eq)
      with A h0 have "\<not> unlisted fr 0" by (auto simp: alloc_set_def)
      then obtain j where "valid_order j" "0 \<in> set (fr j)" by (auto simp: unlisted_def)
      with L o0 True have "0 \<in> set (fr k)" by (auto simp: lists_ok_def)
      with sub have "set (fr k) = {0}" by auto
      with d have "fr k = [0]"
        by (cases "fr k") (auto simp: subset_singleton_iff)
      with True show ?thesis by simp
    qed
  qed
qed

lemma all_free_fresh:
  assumes wf: "wf_state s" and A: "allocated s = {}" and g: "g_memory s = g_memory fresh"
  shows "s = fresh"
proof -
  from wf have sh: "shape s" and I: "inv (ord s) (fl s)" by (simp_all add: wf_state_inv)
  note single = all_free_single [OF I A [unfolded allocated_def]]
  have pages: "g_pages s = g_pages fresh"
  proof (rule nth_equalityI)
    show "length (g_pages s) = length (g_pages fresh)"
      using sh by (simp add: shape_def length_g_pages_fresh)
  next
    fix i assume "i < length (g_pages s)"
    with sh have i: "i < N_PAGES" by (simp add: shape_def)
    have "order (g_pages s ! i) = (if i = 0 then MAX_ORDER else - 1)"
      using single(1) single(2) [OF i] by (simp add: ord_def)
    with i sh show "g_pages s ! i = g_pages fresh ! i"
      by (simp add: g_pages_fresh shape_pages)
  qed
  have area: "free_area s = free_area fresh"
  proof (rule nth_equalityI)
    show "length (free_area s) = length (free_area fresh)"
      using sh by (simp add: shape_def length_free_area_fresh)
  next
    fix n assume "n < length (free_area s)"
    with sh have n: "n \<le> nat MAX_ORDER" by (simp add: shape_def)
    show "free_area s ! n = free_area fresh ! n"
    proof (cases "n < nat MIN_ORDER")
      case True
      with n sh show ?thesis by (simp add: shape_def free_area_fresh)
    next
      case False
      with n have v: "valid_order (int n)"
        by (simp add: valid_order_def MIN_ORDER_def MAX_ORDER_def)
      from shape_heads [OF sh v] obtain xs where xs: "free_area s ! n = Linked xs"
        by (cases "free_area s ! n") simp_all
      with v have "fl s (int n) = xs" by (simp add: fl_def)
      with single(3) [OF v] have "xs = (if int n = MAX_ORDER then [0] else [])" by simp
      with xs n False show ?thesis
        by (auto simp: free_area_fresh MAX_ORDER_def)
    qed
  qed
  from pages area g show ?thesis by simp
qed

section \<open>The bytes of the arena\<close>

lemma with_memory_simps [simp]:
  "g_pages (with_memory m s) = g_pages s"
  "free_area (with_memory m s) = free_area s"
  "g_memory (with_memory m s) = m"
  by (simp_all add: with_memory_def)

lemma set_order_with_memory:
  "set_order i k (with_memory m s) = with_memory m (set_order i k s)"
  by (simp add: set_order_def with_memory_def)

lemma list_del_with_memory:
  "list_del p (with_memory m s) = with_memory m (list_del p s)"
  by (simp add: list_del_def with_memory_def)

lemma list_add_with_memory:
  "list_add p k (with_memory m s) = map_sum id (with_memory m) (list_add p k s)"
  by (simp add: list_add_def with_memory_def split: list_head.splits)

lemma splitBlock_with_memory:
  "splitBlock (with_memory m s) cur tgt p
     = map_sum id (map_prod id (with_memory m)) (splitBlock s cur tgt p)"
proof (induction s cur tgt p rule: splitBlock.induct)
  case (1 s currentOrder endOrder blockStartIndex)
  show ?case
    unfolding splitBlock.simps [of s currentOrder endOrder blockStartIndex]
      splitBlock.simps [of "with_memory m s" currentOrder endOrder blockStartIndex]
    using "1.IH"
    by (auto simp: Let_def set_order_with_memory list_del_with_memory list_add_with_memory
        split: sum.splits)
qed

lemma buddy_free_with_memory:
  "buddy_free (with_memory m s) a = map_sum id (with_memory m) (buddy_free s a)"
proof (induction s a rule: buddy_free.induct)
  case (1 s a)
  show ?case
    unfolding buddy_free.simps [of s a] buddy_free.simps [of "with_memory m s" a]
    using "1.IH"
    by (auto simp: Let_def set_order_with_memory list_del_with_memory list_add_with_memory id_def
        split: sum.splits list_head.splits option.splits)
qed

lemma buddy_alloc_with_memory:
  "buddy_alloc (with_memory m s) sz
     = map_option (map_sum id (map_prod id (with_memory m))) (buddy_alloc s sz)"
  by (auto simp: buddy_alloc_def splitBlock_with_memory
      split: sum.splits option.splits)

lemma with_memory_same: "with_memory (g_memory s) s = s"
  by (simp add: with_memory_def)

lemma splitBlock_g_memory:
  assumes "splitBlock s cur tgt p = Inr (a, s')"
  shows "g_memory s' = g_memory s"
proof -
  from splitBlock_with_memory [of "g_memory s" s cur tgt p] assms
  have "s' = with_memory (g_memory s) s'" by (simp add: with_memory_same)
  then have "g_memory s' = g_memory (with_memory (g_memory s) s')" by simp
  then show ?thesis by simp
qed

lemma buddy_free_g_memory:
  assumes "buddy_free s a = Inr s'"
  shows "g_memory s' = g_memory s"
proof -
  from buddy_free_with_memory [of "g_memory s" s a] assms
  have "s' = with_memory (g_memory s) s'" by (simp add: with_memory_same)
  then have "g_memory s' = g_memory (with_memory (g_memory s) s')" by simp
  then show ?thesis by simp
qed

lemma buddy_alloc_g_memory:
  assumes "buddy_alloc s sz = Some (Inr (a, s'))"
  shows "g_memory s' = g_memory s"
proof -
  from buddy_alloc_with_memory [of "g_memory s" s sz] assms
  have "s' = with_memory (g_memory s) s'" by (simp add: with_memory_same)
  then have "g_memory s' = g_memory (with_memory (g_memory s) s')" by simp
  then show ?thesis by simp
qed

section \<open>Example runs\<close>

text \<open>
  Three allocations of 256 KiB from the fresh arena take the pages \<open>0\<close>, \<open>64\<close> and
  \<open>128\<close> and leave page \<open>192\<close> free; freeing page \<open>0\<close> then puts it in front of page
  \<open>192\<close>, which is not its buddy, in the list of order 18.
\<close>

lemma alloc_at:
  assumes "wf_state s" "getOrder sz = Inr k" "valid_order k" "k \<le> j" "valid_order j"
    "fl s j = p # ps" "\<forall>i. k \<le> i \<and> i < j \<longrightarrow> fl s i = []"
  obtains s' where "buddy_alloc s sz = Some (Inr (PAGE_TO_ADDR p, s'))" "wf_state s'"
    "allocated s' = insert p (allocated s)"
    "\<And>i. fl s' i = (if k \<le> i \<and> i < j then (p + bsize i) # removeAll p (fl s i)
                     else removeAll p (fl s i))"
    "ord s' p = k" "\<And>i. k \<le> i \<Longrightarrow> i < j \<Longrightarrow> ord s' (p + bsize i) = i"
    "\<And>i. i \<noteq> p \<Longrightarrow> (\<forall>n. k \<le> n \<and> n < j \<longrightarrow> i \<noteq> p + bsize n) \<Longrightarrow> ord s' i = ord s i"
proof -
  from buddy_alloc_found [OF assms] obtain s' where s': "buddy_alloc s sz = Some (Inr (PAGE_TO_ADDR p, s'))"
    "split_post s j k p s'" "wf_state s'" "allocated s' = insert p (allocated s)" "ord s p = j"
    by blast
  from s'(2) have f: "fl s' = (\<lambda>i. if k \<le> i \<and> i < j then (p + bsize i) # removeAll p (fl s i)
      else removeAll p (fl s i))"
    and o: "ord s' p = (if k = j then ord s p else k)"
    and b: "\<forall>i. k \<le> i \<and> i < j \<longrightarrow> ord s' (p + bsize i) = i"
    and c: "\<forall>i. i \<noteq> p \<and> (\<forall>n. k \<le> n \<and> n < j \<longrightarrow> i \<noteq> p + bsize n) \<longrightarrow> ord s' i = ord s i"
    unfolding split_post_def by blast+
  from o s'(5) have o': "ord s' p = k" by simp
  show ?thesis
    by (rule that [OF s'(1,3,4) _ o']) (use f b c in \<open>simp_all\<close>)
qed

lemma fl_fresh_fun: "fl fresh = (\<lambda>k. if k = MAX_ORDER then [0] else [])"
proof (rule ext)
  fix k show "fl fresh k = (if k = MAX_ORDER then [0] else [])"
  proof (cases "valid_order k")
    case True
    then show ?thesis by (rule fl_fresh)
  next
    case False
    then have "k \<noteq> MAX_ORDER" by (auto simp: valid_order_def MIN_ORDER_def MAX_ORDER_def)
    with False show ?thesis by (simp add: fl_def)
  qed
qed

lemma getOrder_2_18: "getOrder 262144 = Inr 18"
  by (simp add: getOrder_eval)

lemma valid_order_numeral [simp]:
  "valid_order 12" "valid_order 18" "valid_order 19" "valid_order 20"
  by (simp_all add: valid_order_def MIN_ORDER_def MAX_ORDER_def)

lemma bsize_numeral [simp]: "bsize 18 = 64" "bsize 19 = 128" "bsize 20 = 256" "bsize 12 = 1"
  by (simp_all add: bsize_def MIN_ORDER_def)

lemma PAGE_TO_ADDR_numeral:
  "PAGE_TO_ADDR 0 = Arena 0" "PAGE_TO_ADDR 64 = Arena 262144" "PAGE_TO_ADDR 128 = Arena 524288"
  by (simp_all add: PAGE_TO_ADDR_def PAGE_SIZE_eq)

lemma example_alloc1:
  obtains s1 where "buddy_alloc fresh 262144 = Some (Inr (Arena 0, s1))" "wf_state s1"
    "allocated s1 = {0}" "fl s1 18 = [64]" "fl s1 19 = [128]" "fl s1 20 = []"
    "ord s1 0 = 18" "ord s1 64 = 18"
proof -
  have e: "\<forall>i. (18::int) \<le> i \<and> i < 20 \<longrightarrow> fl fresh i = []"
    by (simp add: fl_fresh_fun MAX_ORDER_def)
  have h: "fl fresh 20 = 0 # []"
    by (simp add: fl_fresh_fun MAX_ORDER_def)
  obtain s1 where s1: "buddy_alloc fresh 262144 = Some (Inr (PAGE_TO_ADDR 0, s1))" "wf_state s1"
    "allocated s1 = insert 0 (allocated fresh)"
    "\<And>i. fl s1 i = (if 18 \<le> i \<and> i < 20 then (0 + bsize i) # removeAll 0 (fl fresh i)
                     else removeAll 0 (fl fresh i))"
    "ord s1 0 = 18" "\<And>i. 18 \<le> i \<Longrightarrow> i < 20 \<Longrightarrow> ord s1 (0 + bsize i) = i"
    "\<And>i. i \<noteq> 0 \<Longrightarrow> (\<forall>n. 18 \<le> n \<and> n < 20 \<longrightarrow> i \<noteq> 0 + bsize n) \<Longrightarrow> ord s1 i = ord fresh i"
    by (rule alloc_at [OF wf_fresh getOrder_2_18 _ _ _ h e]) simp_all
  from s1(6) [of 18] have "ord s1 64 = 18" by simp
  with s1(1,2,3,5) show ?thesis
    by (intro that [of s1])
       (simp_all add: s1(4) fl_fresh_fun MAX_ORDER_def allocated_fresh PAGE_TO_ADDR_numeral)
qed

lemma example_alloc3:
  obtains s3 where
    "run fresh [] [Alloc 262144, Alloc 262144, Alloc 262144]
       = Some (s3, [Arena 524288, Arena 262144, Arena 0])"
    "wf_state s3" "allocated s3 = {0, 64, 128}" "fl s3 18 = [192]" "fl s3 19 = []" "fl s3 20 = []"
    "ord s3 0 = 18" "ord s3 64 = 18" "ord s3 128 = 18"
proof -
  from example_alloc1 obtain s1 where s1: "buddy_alloc fresh 262144 = Some (Inr (Arena 0, s1))"
    "wf_state s1" "allocated s1 = {0}" "fl s1 18 = [64]" "fl s1 19 = [128]" "fl s1 20 = []"
    "ord s1 0 = 18" "ord s1 64 = 18"
    by blast
  have e1: "\<forall>i. (18::int) \<le> i \<and> i < 18 \<longrightarrow> fl s1 i = []" by auto
  obtain s2 where s2: "buddy_alloc s1 262144 = Some (Inr (PAGE_TO_ADDR 64, s2))" "wf_state s2"
    "allocated s2 = insert 64 (allocated s1)"
    "\<And>i. fl s2 i = (if 18 \<le> i \<and> i < 18 then (64 + bsize i) # removeAll 64 (fl s1 i)
                     else removeAll 64 (fl s1 i))"
    "ord s2 64 = 18" "\<And>i. 18 \<le> i \<Longrightarrow> i < 18 \<Longrightarrow> ord s2 (64 + bsize i) = i"
    "\<And>i. i \<noteq> 64 \<Longrightarrow> (\<forall>n. 18 \<le> n \<and> n < 18 \<longrightarrow> i \<noteq> 64 + bsize n) \<Longrightarrow> ord s2 i = ord s1 i"
    by (rule alloc_at [OF s1(2) getOrder_2_18 _ _ _ s1(4) e1]) simp_all
  have f2: "fl s2 18 = []" "fl s2 19 = [128]" "fl s2 20 = []"
    by (simp_all add: s2(4) s1)
  have o2: "ord s2 0 = 18"
    using s2(7) [of 0] s1(7) by simp
  have e2: "\<forall>i. (18::int) \<le> i \<and> i < 19 \<longrightarrow> fl s2 i = []"
  proof (intro allI impI)
    fix i :: int assume "18 \<le> i \<and> i < 19"
    then have "i = 18" by simp
    with f2 show "fl s2 i = []" by simp
  qed
  obtain s3 where s3: "buddy_alloc s2 262144 = Some (Inr (PAGE_TO_ADDR 128, s3))" "wf_state s3"
    "allocated s3 = insert 128 (allocated s2)"
    "\<And>i. fl s3 i = (if 18 \<le> i \<and> i < 19 then (128 + bsize i) # removeAll 128 (fl s2 i)
                     else removeAll 128 (fl s2 i))"
    "ord s3 128 = 18" "\<And>i. 18 \<le> i \<Longrightarrow> i < 19 \<Longrightarrow> ord s3 (128 + bsize i) = i"
    "\<And>i. i \<noteq> 128 \<Longrightarrow> (\<forall>n. 18 \<le> n \<and> n < 19 \<longrightarrow> i \<noteq> 128 + bsize n) \<Longrightarrow> ord s3 i = ord s2 i"
    by (rule alloc_at [OF s2(2) getOrder_2_18 _ _ _ f2(2) e2]) simp_all
  have f3: "fl s3 18 = [192]" "fl s3 19 = []" "fl s3 20 = []"
    by (simp_all add: s3(4) f2)
  have n: "\<forall>n. (18::int) \<le> n \<and> n < 19 \<longrightarrow> i \<noteq> 128 + bsize n" if "i < 128" for i
    using that by (simp add: trans_less_add1)
  have o3: "ord s3 0 = 18" "ord s3 64 = 18"
    using s3(7) [of 0] s3(7) [of 64] n o2 s2(5) by simp_all
  have r: "run fresh [] [Alloc 262144, Alloc 262144, Alloc 262144]
       = Some (s3, [Arena 524288, Arena 262144, Arena 0])"
    using s1(1) s2(1) s3(1) by (simp add: PAGE_TO_ADDR_numeral)
  have a: "allocated s3 = {0, 64, 128}"
    using s3(3) s2(3) s1(3) by auto
  from r s3(2) a f3 o3 s3(5) show ?thesis by (rule that)
qed

lemma example_free1:
  obtains s3 s4 where
    "run fresh [] [Alloc 262144, Alloc 262144, Alloc 262144]
       = Some (s3, [Arena 524288, Arena 262144, Arena 0])"
    "wf_state s3" "0 \<in> allocated s3" "ord s3 0 = 18" "fl s3 18 = [192]"
    "buddy_free s3 (Arena 0) = Inr s4" "wf_state s4" "allocated s4 = {64, 128}"
    "fl s4 18 = [0, 192]" "ord s4 64 = 18"
proof -
  from example_alloc3 obtain s3 where s3:
    "run fresh [] [Alloc 262144, Alloc 262144, Alloc 262144]
       = Some (s3, [Arena 524288, Arena 262144, Arena 0])"
    "wf_state s3" "allocated s3 = {0, 64, 128}" "fl s3 18 = [192]" "ord s3 0 = 18"
    "ord s3 64 = 18"
    by blast
  from s3(3) have a: "0 \<in> allocated s3" by simp
  have nb: "0 XOR bsize (ord s3 0) \<notin> set (fl s3 (ord s3 0))"
    by (simp add: s3)
  from s3(2) have sh: "shape s3" by (simp add: wf_state_def)
  from list_add_shape [OF sh, of 18 0] obtain s4 where s4: "list_add 0 18 s3 = Inr s4"
    "ord s4 = ord s3" "fl s4 = (fl s3)(18 := 0 # fl s3 18)"
    by auto
  from buddy_free_insert [OF s3(2) a nb] s4(1) s3(5)
  have f: "buddy_free s3 (Arena 0) = Inr s4"
    by (simp add: PAGE_TO_ADDR_numeral)
  from buddy_free_correct [OF s3(2) a] f
  have w: "wf_state s4" "allocated s4 = allocated s3 - {0}"
    by (simp_all add: PAGE_TO_ADDR_numeral)
  from w(2) s3(3) have a4: "allocated s4 = {64, 128}" by auto
  have "fl s4 18 = [0, 192]" "ord s4 64 = 18"
    by (simp_all add: s4 s3)
  with s3(1,2) a s3(5,4) f w(1) a4 show ?thesis by (rule that)
qed

lemma example_exhausted:
  obtains s1 where "buddy_alloc fresh 1048576 = Some (Inr (Arena 0, s1))" "wf_state s1"
    "\<And>i. fl s1 i = []"
proof -
  have g: "getOrder 1048576 = Inr 20" by (simp add: getOrder_eval)
  have e: "\<forall>i. (20::int) \<le> i \<and> i < 20 \<longrightarrow> fl fresh i = []" by auto
  have h: "fl fresh 20 = 0 # []" by (simp add: fl_fresh_fun MAX_ORDER_def)
  obtain s1 where s1: "buddy_alloc fresh 1048576 = Some (Inr (PAGE_TO_ADDR 0, s1))" "wf_state s1"
    "allocated s1 = insert 0 (allocated fresh)"
    "\<And>i. fl s1 i = (if 20 \<le> i \<and> i < 20 then (0 + bsize i) # removeAll 0 (fl fresh i)
                     else removeAll 0 (fl fresh i))"
    "ord s1 0 = 20" "\<And>i. 20 \<le> i \<Longrightarrow> i < 20 \<Longrightarrow> ord s1 (0 + bsize i) = i"
    "\<And>i. i \<noteq> 0 \<Longrightarrow> (\<forall>n. 20 \<le> n \<and> n < 20 \<longrightarrow> i \<noteq> 0 + bsize n) \<Longrightarrow> ord s1 i = ord fresh i"
    by (rule alloc_at [OF wf_fresh g _ _ _ h e]) simp_all
  have "fl s1 i = []" for i
    by (simp add: s1(4) fl_fresh_fun)
  with s1(1,2) show ?thesis
    by (intro that [of s1]) (simp_all add: PAGE_TO_ADDR_numeral)
qed

lemma getOrder_1: "getOrder 1 = Inr 12"
  by (simp add: getOrder_eval)

lemma reachable_fresh: "reachable fresh []"
  unfolding reachable_def by (rule exI [of _ "[]"]) simp

lemma least_order_2_18: "least_order 262144 18"
proof -
  from getOrder_least [of 262144] obtain k where "getOrder 262144 = Inr k" "least_order 262144 k"
    by (auto simp: MAX_ORDER_def)
  with getOrder_2_18 show ?thesis by simp
qed

lemma run_append:
  "run s live (cs @ ds) =
     (case run s live cs of None \<Rightarrow> None | Some (s', live') \<Rightarrow> run s' live' ds)"
  by (induction s live cs rule: run.induct)
     (auto split: option.splits sum.splits)

lemma run_Free:
  assumes "live_ok s live" "a \<in> set live"
  obtains s' where "run s live [Free a] = Some (s', remove1 a live)"
    "live_ok s' (remove1 a live)"
proof -
  from assms obtain p where p: "a = PAGE_TO_ADDR p" "p \<in> allocated s"
    by (auto simp: live_ok_def)
  from assms(1) have "wf_state s" by (simp add: live_ok_def)
  from buddy_free_correct [OF this p(2)] p(1) obtain s' where s': "buddy_free s a = Inr s'"
    by auto
  from live_ok_free [OF assms s'] s' assms(2) that show ?thesis by simp
qed

section \<open>The claims\<close>

subsection \<open>Allocation returns the smallest sufficient block\<close>

text \<open>
  C1: when \<^verbatim>\<open>buddy_alloc(size)\<close> with \<open>0 < size \<le> 2 ^ MAX_ORDER\<close> returns a block in a
  state the allocator can reach, the address is the base \<open>PAGE_TO_ADDR p\<close> of a block
  that is now allocated, its order is the least order \<open>k\<close> between \<open>MIN_ORDER\<close> and
  \<open>MAX_ORDER\<close> with \<open>size \<le> 2 ^ k\<close>, and its offset \<open>p * PAGE_SIZE\<close> from the base of
  the arena is a multiple of \<open>2 ^ k\<close>.
\<close>

theorem buddy_alloc_smallest_block:
  assumes "reachable s live" "0 < sz" "sz \<le> 2 ^ nat MAX_ORDER"
    and "buddy_alloc s sz = Some (Inr (a, s'))"
  shows "\<exists>k p. least_order sz k \<and> a = PAGE_TO_ADDR p \<and> p < N_PAGES \<and> ord s' p = k \<and>
           p \<in> allocated s' \<and> 2 ^ nat k dvd p * PAGE_SIZE"
proof -
  from assms(1) have wf: "wf_state s" by (rule reachable_wf)
  from getOrder_least [OF assms(2,3)] obtain k where k: "getOrder sz = Inr k" "least_order sz k"
    by blast
  then have v: "valid_order k" by (simp add: least_order_def)
  from v show ?thesis
  proof (rule buddy_alloc_cases [OF wf k(1)], goal_cases)
    case 1
    with assms(4) show ?case by simp
  next
    case (2 j p ps t)
    with assms(4) have a: "a = PAGE_TO_ADDR p" and t: "t = s'" by simp_all
    from 2 t have post: "split_post s j k p s'" and wf': "wf_state s'"
      and al: "p \<in> allocated s'"
      by simp_all
    from post 2 have o: "ord s' p = k" by (simp add: split_post_def)
    from allocatedD [OF wf' al] o have "bsize k dvd p" by simp
    then have "bsize k * PAGE_SIZE dvd p * PAGE_SIZE" by (rule mult_dvd_mono) simp
    with v have "2 ^ nat k dvd p * PAGE_SIZE"
      by (simp add: bsize_PAGE_SIZE valid_order_def)
    with k(2) a 2 o al show ?case by blast
  qed
qed

theorem buddy_alloc_smallest_block_witness:
  "\<exists>s'. buddy_alloc fresh 262144 = Some (Inr (Arena 0, s')) \<and> least_order 262144 18 \<and>
        ord s' 0 = 18 \<and> 0 \<in> allocated s' \<and> (2::nat) ^ 18 dvd 0 * PAGE_SIZE"
proof -
  from example_alloc1 obtain s1 where s1: "buddy_alloc fresh 262144 = Some (Inr (Arena 0, s1))"
    by blast
  have "(262144::int) \<le> 2 ^ nat MAX_ORDER" by (simp add: MAX_ORDER_def)
  from buddy_alloc_smallest_block [OF reachable_fresh _ this s1]
  obtain k p where kp: "least_order 262144 k" "Arena 0 = PAGE_TO_ADDR p" "ord s1 p = k"
    "p \<in> allocated s1"
    by auto
  from kp(1) have "k = 18" by (rule least_order_unique) (rule least_order_2_18)
  moreover from kp(2) have "p = 0" by (simp add: PAGE_TO_ADDR_def PAGE_SIZE_eq)
  ultimately show ?thesis using s1 kp least_order_2_18 by auto
qed

subsection \<open>Allocation from an exhausted arena\<close>

text \<open>
  C2, at its own boundary example: from the freshly initialised arena
  \<^verbatim>\<open>buddy_alloc(1<<MAX_ORDER)\<close> returns the whole arena, and the next call
  \<^verbatim>\<open>buddy_alloc(1)\<close> does not return the failure value \<^verbatim>\<open>NULL\<close>: the scan stores \<open>- 1\<close>
  at order \<open>MAX_ORDER\<close>, the increment of the \<^verbatim>\<open>for\<close> loop turns it into \<open>0\<close>, the loop
  stops at the list head of order \<open>0\<close> that was never initialised, and the first entry
  of that list is read through a null link.
\<close>

theorem buddy_alloc_exhausted_fault:
  "\<exists>s1. buddy_alloc fresh 1048576 = Some (Inr (Arena 0, s1)) \<and>
         buddy_alloc s1 1 = Some (Inl NullDereference)"
proof -
  from example_exhausted obtain s1
    where s1: "buddy_alloc fresh 1048576 = Some (Inr (Arena 0, s1))" "wf_state s1"
      "\<And>i. fl s1 i = []"
    by blast
  from s1(2) have "shape s1" by (simp add: wf_state_def)
  from buddy_alloc_exhausted [OF this getOrder_1] s1(1,3) show ?thesis
    by auto
qed

subsection \<open>Freeing and coalescing\<close>

text \<open>
  C3: let \<open>p\<close> be the head page of an allocated block of a well-formed state (every
  reachable state is one, and the addresses \<^verbatim>\<open>buddy_alloc\<close> has returned and that are not
  yet freed are the addresses of its allocated blocks: \<open>reachable_live_ok\<close>), \<open>k\<close> the
  order of the block and \<open>b\<close> the page whose address is the address of \<open>p\<close> with bit \<open>k\<close>
  of the offset flipped. If \<open>b\<close> is not an entry of the free list of order \<open>k\<close>, whether
  that list is empty or not, \<^verbatim>\<open>buddy_free\<close> puts \<open>p\<close> at the front of that list, changes
  nothing else and returns. If \<open>b\<close> is an entry, then \<open>k < MAX_ORDER\<close> and the call
  continues as \<^verbatim>\<open>buddy_free\<close> of the lower of the two pages in the state \<open>merged p b s\<close>:
  there \<open>b\<close> is in no free list, the lower page has order \<open>k + 1\<close> and is the head of an
  allocated block of a well-formed state (so all of this holds again one order up), and
  the higher page has the invalid order \<open>- 1\<close>. At order \<open>MAX_ORDER\<close> the buddy is never
  an entry, and the call always returns a well-formed state in which the block is no
  longer allocated.
\<close>

theorem buddy_free_coalesce:
  assumes "wf_state s" "p \<in> allocated s" "k = ord s p" "b = p XOR bsize k"
  shows "BUDDY_ADDR (PAGE_TO_ADDR p) k = Inr (PAGE_TO_ADDR b) \<and>
    PAGE_TO_ADDR b = Arena ((p * PAGE_SIZE) XOR 2 ^ nat k) \<and>
    (b \<notin> set (fl s k) \<longrightarrow>
       (\<exists>s'. buddy_free s (PAGE_TO_ADDR p) = Inr s' \<and> fl s' = (fl s)(k := p # fl s k) \<and>
             g_pages s' = g_pages s)) \<and>
    (b \<in> set (fl s k) \<longrightarrow>
       k < MAX_ORDER \<and>
       buddy_free s (PAGE_TO_ADDR p) = buddy_free (merged p b s) (PAGE_TO_ADDR (min p b)) \<and>
       fl (merged p b s) = (\<lambda>j. removeAll b (fl s j)) \<and>
       ord (merged p b s) = (ord s)(max p b := - 1, min p b := k + 1) \<and>
       wf_state (merged p b s) \<and> min p b \<in> allocated (merged p b s)) \<and>
    (k = MAX_ORDER \<longrightarrow> b \<notin> set (fl s k)) \<and>
    (\<exists>s'. buddy_free s (PAGE_TO_ADDR p) = Inr s' \<and> wf_state s' \<and>
          allocated s' = allocated s - {p})"
proof -
  note a = allocatedD [OF assms(1,2)]
  from a(2) have v: "valid_order k" by (simp add: assms(3))
  from assms(1) have sh: "shape s" by (simp add: wf_state_def)
  have 1: "BUDDY_ADDR (PAGE_TO_ADDR p) k = Inr (PAGE_TO_ADDR b)"
    using v by (simp add: BUDDY_ADDR_page assms(4))
  have 2: "PAGE_TO_ADDR b = Arena ((p * PAGE_SIZE) XOR 2 ^ nat k)"
    using v by (simp add: PAGE_TO_ADDR_def assms(4) xor_pages valid_order_def)
  have 3: "\<exists>s'. buddy_free s (PAGE_TO_ADDR p) = Inr s' \<and> fl s' = (fl s)(k := p # fl s k) \<and>
      g_pages s' = g_pages s" if nb: "b \<notin> set (fl s k)"
  proof -
    from list_add_shape [OF sh v, of p] obtain s' where "list_add p k s = Inr s'"
      "fl s' = (fl s)(k := p # fl s k)" "g_pages s' = g_pages s"
      by blast
    with buddy_free_insert [OF assms(1,2)] nb show ?thesis
      by (simp add: assms(3,4))
  qed
  have 4: "k < MAX_ORDER \<and>
      buddy_free s (PAGE_TO_ADDR p) = buddy_free (merged p b s) (PAGE_TO_ADDR (min p b)) \<and>
      fl (merged p b s) = (\<lambda>j. removeAll b (fl s j)) \<and>
      ord (merged p b s) = (ord s)(max p b := - 1, min p b := k + 1) \<and>
      wf_state (merged p b s) \<and> min p b \<in> allocated (merged p b s)" if "b \<in> set (fl s k)"
  proof -
    from that have "b \<in> set (fl s (ord s p))" by (simp add: assms(3))
    note m = buddy_free_merge [OF assms(1,2) assms(4) [unfolded assms(3)] this]
    from m(7) have "k < MAX_ORDER" by (simp add: valid_order_def assms(3))
    with m(1-5) show ?thesis by (simp add: assms(3))
  qed
  from 4 have 5: "k = MAX_ORDER \<longrightarrow> b \<notin> set (fl s k)" by auto
  from buddy_free_correct [OF assms(1,2)]
  have 6: "\<exists>s'. buddy_free s (PAGE_TO_ADDR p) = Inr s' \<and> wf_state s' \<and>
      allocated s' = allocated s - {p}"
    by blast
  from 1 2 3 4 5 6 show ?thesis by blast
qed

theorem buddy_free_coalesce_witness:
  "\<exists>s3 s4. run fresh [] [Alloc 262144, Alloc 262144, Alloc 262144]
             = Some (s3, [Arena 524288, Arena 262144, Arena 0]) \<and>
     fl s3 18 = [192] \<and> buddy_free s3 (Arena 0) = Inr s4 \<and> fl s4 18 = [0, 192] \<and>
     buddy_free s4 (Arena 262144) = buddy_free (merged 64 0 s4) (Arena 0) \<and>
     ord (merged 64 0 s4) 0 = 19 \<and> ord (merged 64 0 s4) 64 = - 1 \<and>
     fl (merged 64 0 s4) 18 = [192]"
proof -
  from example_free1 obtain s3 s4 where s:
    "run fresh [] [Alloc 262144, Alloc 262144, Alloc 262144]
       = Some (s3, [Arena 524288, Arena 262144, Arena 0])"
    "wf_state s3" "0 \<in> allocated s3" "ord s3 0 = 18" "fl s3 18 = [192]"
    "buddy_free s3 (Arena 0) = Inr s4" "wf_state s4" "allocated s4 = {64, 128}"
    "fl s4 18 = [0, 192]" "ord s4 64 = 18"
    by blast
  from s(8) have a: "64 \<in> allocated s4" by simp
  have b: "(0::nat) = 64 XOR bsize 18" by simp
  from buddy_free_coalesce [OF s(7) a s(10) [symmetric] b] s(9)
  have "buddy_free s4 (PAGE_TO_ADDR 64) = buddy_free (merged 64 0 s4) (PAGE_TO_ADDR (min 64 0))"
    "fl (merged 64 0 s4) = (\<lambda>j. removeAll 0 (fl s4 j))"
    "ord (merged 64 0 s4) = (ord s4)(max 64 0 := - 1, min 64 0 := 18 + 1)"
    by simp_all
  with s show ?thesis
    by (intro exI [of _ s3] exI [of _ s4]) (simp add: PAGE_TO_ADDR_numeral)
qed

subsection \<open>Round trip\<close>

text \<open>
  C4: a sequence of calls is run from the freshly initialised state; \<open>run\<close> keeps the
  addresses that \<^verbatim>\<open>buddy_alloc\<close> returned and that are not freed yet, and goes on only
  if every \<^verbatim>\<open>buddy_free\<close> gets one of them. When the sequence ends with no such address
  left (every allocated block was freed, once), the final state is the state right after
  \<^verbatim>\<open>buddy_init\<close>: page table, free lists and arena are the same. In that state the free
  list of order \<open>MAX_ORDER\<close> holds page \<open>0\<close> alone, the other free lists are empty, and
  page \<open>0\<close> has order \<open>MAX_ORDER\<close>. (A sequence in which a call faults has no final
  state; a \<^verbatim>\<open>buddy_free\<close> of a live address never faults.)
\<close>

theorem alloc_free_round_trip:
  assumes "run fresh [] cs = Some (s, [])"
  shows "s = fresh \<and> fl s = (\<lambda>k. if k = MAX_ORDER then [0] else []) \<and> ord s 0 = MAX_ORDER"
proof -
  from run_live_ok [OF live_ok_fresh assms] have "live_ok s []" .
  then have "wf_state s" "allocated s = {}" "g_memory s = g_memory fresh"
    by (simp_all add: live_ok_def)
  then have "s = fresh" by (rule all_free_fresh)
  then show ?thesis
    by (simp add: fl_fresh_fun ord_fresh N_PAGES_eq)
qed

theorem alloc_free_round_trip_witness:
  "run fresh []
     [Alloc 262144, Alloc 262144, Alloc 262144,
      Free (Arena 0), Free (Arena 262144), Free (Arena 524288)] = Some (fresh, [])"
proof -
  let ?allocs = "[Alloc 262144, Alloc 262144, Alloc 262144]"
  from example_alloc3 obtain s3 where s3:
    "run fresh [] ?allocs = Some (s3, [Arena 524288, Arena 262144, Arena 0])"
    by blast
  from run_live_ok [OF live_ok_fresh s3]
  have l3: "live_ok s3 [Arena 524288, Arena 262144, Arena 0]" .
  from run_Free [OF l3, of "Arena 0"] obtain s4
    where s4: "run s3 [Arena 524288, Arena 262144, Arena 0] [Free (Arena 0)]
        = Some (s4, [Arena 524288, Arena 262144])"
      and l4: "live_ok s4 [Arena 524288, Arena 262144]"
    by auto
  from run_Free [OF l4, of "Arena 262144"] obtain s5
    where s5: "run s4 [Arena 524288, Arena 262144] [Free (Arena 262144)]
        = Some (s5, [Arena 524288])"
      and l5: "live_ok s5 [Arena 524288]"
    by auto
  from run_Free [OF l5, of "Arena 524288"] obtain s6
    where s6: "run s5 [Arena 524288] [Free (Arena 524288)] = Some (s6, [])"
    by auto
  have r: "run fresh []
      (?allocs @ [Free (Arena 0)] @ [Free (Arena 262144)] @ [Free (Arena 524288)])
      = Some (s6, [])"
    by (simp only: run_append s3 s4 s5 s6 option.case prod.case)
  from alloc_free_round_trip [OF r] have "s6 = fresh" by simp
  with r show ?thesis by simp
qed

subsection \<open>The order computation\<close>

text \<open>
  C5, at a size above \<open>2 ^ 30\<close>: every power of two that an \<^verbatim>\<open>int\<close> holds is smaller
  than the size, so the loop of \<^verbatim>\<open>getOrder\<close> reaches \<^verbatim>\<open>1<<31\<close>, which is not defined;
  the failure value \<open>- 1\<close> is not returned.
\<close>

theorem getOrder_above_2_30: "getOrder 1073741825 = Inl ShiftOutOfRange"
  by (simp add: getOrder_eval)

subsection \<open>Splitting\<close>

text \<open>
  C6: let \<open>p\<close> be an entry of the free list of order \<open>cur\<close> in a well-formed state and
  \<open>tgt \<le> cur\<close> an order. \<^verbatim>\<open>splitBlock\<close> returns the address of \<open>p\<close>; afterwards \<open>p\<close> is
  gone from the list of order \<open>cur\<close>, every list of an order \<open>j\<close> from \<open>tgt\<close> up to
  \<open>cur - 1\<close> has the right half \<open>p + bsize j\<close> of the block halved at that step as its new
  first entry, and that page has order \<open>j\<close>; the lists of the other orders are as before;
  \<open>p\<close> has order \<open>tgt\<close>, is in no free list and heads an allocated block, and the state
  is well formed.
\<close>

theorem splitBlock_halves:
  assumes "wf_state s" "valid_order tgt" "tgt \<le> cur" "valid_order cur" "p \<in> set (fl s cur)"
  shows "\<exists>s'. splitBlock s cur tgt p = Inr (PAGE_TO_ADDR p, s') \<and>
           fl s' cur = removeAll p (fl s cur) \<and>
           (\<forall>j. tgt \<le> j \<and> j < cur \<longrightarrow>
                fl s' j = (p + bsize j) # fl s j \<and> ord s' (p + bsize j) = j) \<and>
           (\<forall>j. j < tgt \<or> cur < j \<longrightarrow> fl s' j = fl s j) \<and>
           ord s' p = tgt \<and> unlisted (fl s') p \<and> p \<in> allocated s' \<and> wf_state s'"
proof -
  from assms(1) have sh: "shape s" and I: "inv (ord s) (fl s)" by (simp_all add: wf_state_inv)
  from I assms(4,5) have p: "p < N_PAGES" "ord s p = cur"
    by (auto simp: inv_def lists_ok_def)
  with I assms(4) have al: "bsize cur dvd p"
    by (auto simp: inv_def heads_ok_def valid_order_simps)
  have only: "p \<notin> set (fl s j)" if "j \<noteq> cur" for j
  proof (cases "valid_order j")
    case True
    with I p(2) that show ?thesis by (auto simp: inv_def lists_ok_def)
  next
    case False
    then show ?thesis by (simp add: fl_def)
  qed
  from splitBlock_correct [OF sh p(1) assms(2,3,4) al]
  obtain s' where s': "splitBlock s cur tgt p = Inr (PAGE_TO_ADDR p, s')"
    and post: "split_post s cur tgt p s'"
    by blast
  from post have f: "fl s' = (\<lambda>j. if tgt \<le> j \<and> j < cur then (p + bsize j) # removeAll p (fl s j)
      else removeAll p (fl s j))"
    and o: "ord s' p = (if tgt = cur then ord s p else tgt)"
    and b: "\<forall>j. tgt \<le> j \<and> j < cur \<longrightarrow> ord s' (p + bsize j) = j"
    and shape': "shape s'"
    unfolding split_post_def by blast+
  from I have "inv (ord s) (\<lambda>j. removeAll p (fl s j))" by (rule inv_remove)
  with post p(2) have I': "inv (ord s') (fl s')"
    and a: "alloc_set (ord s') (fl s') = alloc_set (ord s) (\<lambda>j. removeAll p (fl s j))"
    unfolding split_post_def by blast+
  from p assms(4) have "ord s p \<noteq> - 1" by (simp add: valid_order_simps)
  from alloc_set_remove [of p "ord s" "fl s", OF p(1) this] a
  have 7: "p \<in> allocated s'" by (simp add: allocated_def)
  have 2: "fl s' cur = removeAll p (fl s cur)" by (simp add: f)
  have 3: "\<forall>j. tgt \<le> j \<and> j < cur \<longrightarrow>
      fl s' j = (p + bsize j) # fl s j \<and> ord s' (p + bsize j) = j"
    using b only by (auto simp: f)
  have 4: "\<forall>j. j < tgt \<or> cur < j \<longrightarrow> fl s' j = fl s j"
    using only assms(3) by (auto simp: f)
  from o p(2) have 5: "ord s' p = tgt" by simp
  from 7 have 6: "unlisted (fl s') p" by (simp add: allocated_def alloc_set_def)
  from shape' I' have 8: "wf_state s'" by (simp add: wf_state_inv)
  from s' 2 3 4 5 6 7 8 show ?thesis by blast
qed

theorem splitBlock_halves_witness:
  "\<exists>s'. splitBlock fresh 20 18 0 = Inr (Arena 0, s') \<and> fl s' 20 = [] \<and> fl s' 19 = [128] \<and>
        fl s' 18 = [64] \<and> ord s' 128 = 19 \<and> ord s' 64 = 18 \<and> ord s' 0 = 18 \<and>
        0 \<in> allocated s'"
proof -
  have "0 \<in> set (fl fresh 20)" by (simp add: fl_fresh_fun MAX_ORDER_def)
  from splitBlock_halves [OF wf_fresh _ _ _ this, of 18]
  obtain s' where s': "splitBlock fresh 20 18 0 = Inr (PAGE_TO_ADDR 0, s')"
    "fl s' 20 = removeAll 0 (fl fresh 20)"
    "\<forall>j. 18 \<le> j \<and> j < 20 \<longrightarrow> fl s' j = (0 + bsize j) # fl fresh j \<and> ord s' (0 + bsize j) = j"
    "ord s' 0 = 18" "0 \<in> allocated s'"
    by auto
  from s'(3) [rule_format, of 19] s'(3) [rule_format, of 18]
  have "fl s' 19 = (0 + bsize 19) # fl fresh 19 \<and> ord s' (0 + bsize 19) = 19"
    "fl s' 18 = (0 + bsize 18) # fl fresh 18 \<and> ord s' (0 + bsize 18) = 18"
    by simp_all
  with s'(1,2,4,5) show ?thesis
    by (intro exI [of _ s']) (simp add: fl_fresh_fun MAX_ORDER_def PAGE_TO_ADDR_numeral)
qed

subsection \<open>No two free buddies\<close>

text \<open>
  C7: in every state that \<^verbatim>\<open>buddy_init\<close> followed by calls of \<^verbatim>\<open>buddy_alloc\<close> and of
  \<^verbatim>\<open>buddy_free\<close> (each on an address that was returned and is not freed yet) can leave
  behind, no free list holds two pages of which one has the buddy address
  \<^verbatim>\<open>BUDDY_ADDR\<close> of the other at the order of the list.
\<close>

theorem no_free_buddy_pair:
  assumes "reachable s live" "valid_order k" "p \<in> set (fl s k)" "q \<in> set (fl s k)"
  shows "BUDDY_ADDR (PAGE_TO_ADDR p) k \<noteq> Inr (PAGE_TO_ADDR q)"
proof -
  from assms(1) have "wf_state s" by (rule reachable_wf)
  then have "no_free_buddies (fl s)" by (simp add: wf_state_def)
  with assms(2,3,4) have "\<not> buddies k p q" unfolding no_free_buddies_def by blast
  then show ?thesis by (simp add: buddies_def)
qed

theorem no_free_buddy_pair_witness:
  "\<exists>s. reachable s [Arena 524288, Arena 262144] \<and> fl s 18 = [0, 192] \<and>
       BUDDY_ADDR (PAGE_TO_ADDR 0) 18 \<noteq> Inr (PAGE_TO_ADDR 192)"
proof -
  from example_free1 obtain s3 s4 where s:
    "run fresh [] [Alloc 262144, Alloc 262144, Alloc 262144]
       = Some (s3, [Arena 524288, Arena 262144, Arena 0])"
    "buddy_free s3 (Arena 0) = Inr s4" "fl s4 18 = [0, 192]"
    by blast
  have "run fresh [] ([Alloc 262144, Alloc 262144, Alloc 262144] @ [Free (Arena 0)])
      = Some (s4, [Arena 524288, Arena 262144])"
    by (simp only: run_append s(1) option.case prod.case) (simp add: s(2))
  then have r: "reachable s4 [Arena 524288, Arena 262144]"
    unfolding reachable_def by blast
  from no_free_buddy_pair [OF r, of 18 0 192] s(3)
  have "BUDDY_ADDR (PAGE_TO_ADDR 0) 18 \<noteq> Inr (PAGE_TO_ADDR 192)" by simp
  with r s(3) show ?thesis by blast
qed

subsection \<open>Sizes that are not positive\<close>

text \<open>
  C8, at the sizes \<open>0\<close> and \<open>- 1\<close>: the first test of the loop of \<^verbatim>\<open>getOrder\<close>
  divides by the size, and for a negative size the quotient is never positive, so the
  loop runs until the shift is undefined. \<^verbatim>\<open>buddy_alloc\<close> does not guard either.
\<close>

theorem getOrder_nonpositive:
  "getOrder 0 = Inl DivisionByZero \<and> getOrder (- 1) = Inl ShiftOutOfRange \<and>
   buddy_alloc s 0 = Some (Inl DivisionByZero)"
  by (simp add: getOrder_eval buddy_alloc_def)

subsection \<open>The arena is not touched\<close>

text \<open>
  C9: \<^verbatim>\<open>splitBlock\<close>, \<^verbatim>\<open>buddy_alloc\<close> and \<^verbatim>\<open>buddy_free\<close> do not read the bytes of
  \<^verbatim>\<open>g_memory\<close> (with other bytes in the arena they return the same result and the same
  page table and free lists) and do not write them (the bytes after the call are the
  bytes before it).
\<close>

theorem arena_untouched:
  "splitBlock (with_memory m s) cur tgt p
     = map_sum id (map_prod id (with_memory m)) (splitBlock s cur tgt p) \<and>
   buddy_alloc (with_memory m s) sz
     = map_option (map_sum id (map_prod id (with_memory m))) (buddy_alloc s sz) \<and>
   buddy_free (with_memory m s) a = map_sum id (with_memory m) (buddy_free s a) \<and>
   (\<forall>r s'. splitBlock s cur tgt p = Inr (r, s') \<longrightarrow> g_memory s' = g_memory s) \<and>
   (\<forall>r s'. buddy_alloc s sz = Some (Inr (r, s')) \<longrightarrow> g_memory s' = g_memory s) \<and>
   (\<forall>s'. buddy_free s a = Inr s' \<longrightarrow> g_memory s' = g_memory s)"
proof (intro conjI allI impI)
  show "splitBlock (with_memory m s) cur tgt p
      = map_sum id (map_prod id (with_memory m)) (splitBlock s cur tgt p)"
    by (rule splitBlock_with_memory)
  show "buddy_alloc (with_memory m s) sz
      = map_option (map_sum id (map_prod id (with_memory m))) (buddy_alloc s sz)"
    by (rule buddy_alloc_with_memory)
  show "buddy_free (with_memory m s) a = map_sum id (with_memory m) (buddy_free s a)"
    by (rule buddy_free_with_memory)
  show "g_memory s' = g_memory s" if "splitBlock s cur tgt p = Inr (r, s')" for r s'
    using that by (rule splitBlock_g_memory)
  show "g_memory s' = g_memory s" if "buddy_alloc s sz = Some (Inr (r, s'))" for r s'
    using that by (rule buddy_alloc_g_memory)
  show "g_memory s' = g_memory s" if "buddy_free s a = Inr s'" for s'
    using that by (rule buddy_free_g_memory)
qed

theorem arena_untouched_witness:
  "\<exists>s'. buddy_alloc fresh 262144 = Some (Inr (Arena 0, s')) \<and>
        g_memory s' = g_memory startup \<and>
        buddy_alloc (with_memory [] fresh) 262144 = Some (Inr (Arena 0, with_memory [] s'))"
proof -
  from example_alloc1 obtain s1 where s1: "buddy_alloc fresh 262144 = Some (Inr (Arena 0, s1))"
    by blast
  from arena_untouched [of "[]" fresh 0 0 0 262144 NULL] s1
  have "g_memory s1 = g_memory fresh"
    "buddy_alloc (with_memory [] fresh) 262144 = Some (Inr (Arena 0, with_memory [] s1))"
    by simp_all
  with s1 show ?thesis by (simp add: g_memory_fresh)
qed

subsection \<open>Freeing the null pointer\<close>

text \<open>
  C10: \<^verbatim>\<open>buddy_free(NULL)\<close> returns and leaves the page descriptor table and every free
  list (the whole state) as they were.
\<close>

theorem buddy_free_NULL: "buddy_free s NULL = Inr s"
  by (simp add: buddy_free.simps)

theorem buddy_free_NULL_witness: "buddy_free startup NULL = Inr startup"
  using buddy_free_NULL [of startup] .

section \<open>Further properties\<close>

text \<open>
  X1: for \<open>0 < size \<le> 2 ^ MAX_ORDER\<close>, \<^verbatim>\<open>getOrder\<close> returns the least order between
  \<open>MIN_ORDER\<close> and \<open>MAX_ORDER\<close> whose power of two is at least the size (an exact power
  of two is not rounded up), and for \<open>2 ^ MAX_ORDER < size \<le> 2 ^ 30\<close> it returns \<open>- 1\<close>.
\<close>

theorem getOrder_in_range:
  "(0 < sz \<and> sz \<le> 2 ^ nat MAX_ORDER \<longrightarrow> (\<exists>k. getOrder sz = Inr k \<and> least_order sz k)) \<and>
   (2 ^ nat MAX_ORDER < sz \<and> sz \<le> 2 ^ 30 \<longrightarrow> getOrder sz = Inr (- 1))"
  using getOrder_least [of sz] getOrder_too_large [of sz] by blast

theorem getOrder_in_range_witness:
  "getOrder 4096 = Inr 12 \<and> least_order 4096 12 \<and> getOrder 1048577 = Inr (- 1)"
proof -
  have e: "getOrder 4096 = Inr 12" by (simp add: getOrder_eval)
  from getOrder_in_range [of 4096] obtain k where "getOrder 4096 = Inr k" "least_order 4096 k"
    by (auto simp: MAX_ORDER_def)
  with e have "least_order 4096 12" by simp
  moreover from getOrder_in_range [of 1048577] have "getOrder 1048577 = Inr (- 1)"
    by (simp add: MAX_ORDER_def)
  ultimately show ?thesis using e by simp
qed

text \<open>
  X2: in every reachable state in which all free lists from the requested order up to
  \<open>MAX_ORDER\<close> are empty, \<^verbatim>\<open>buddy_alloc\<close> reads through the null link of the list head
  of order \<open>0\<close>; it does not return \<^verbatim>\<open>NULL\<close>.
\<close>

theorem buddy_alloc_exhausted_reachable:
  assumes "reachable s live" "getOrder sz = Inr k" "valid_order k"
    and "\<forall>i. k \<le> i \<and> i \<le> MAX_ORDER \<longrightarrow> fl s i = []"
  shows "buddy_alloc s sz = Some (Inl NullDereference)"
proof -
  from assms(1) have "shape s" by (auto dest: reachable_wf simp: wf_state_def)
  from this assms(2,3,4) show ?thesis by (rule buddy_alloc_exhausted)
qed

theorem buddy_alloc_exhausted_reachable_witness:
  "\<exists>s. reachable s [Arena 0] \<and> (\<forall>i. fl s i = []) \<and>
       buddy_alloc s 1 = Some (Inl NullDereference)"
proof -
  from example_exhausted obtain s1
    where s1: "buddy_alloc fresh 1048576 = Some (Inr (Arena 0, s1))" "\<And>i. fl s1 i = []"
    by blast
  from s1(1) have "run fresh [] [Alloc 1048576] = Some (s1, [Arena 0])" by simp
  then have r: "reachable s1 [Arena 0]" unfolding reachable_def by blast
  from buddy_alloc_exhausted_reachable [OF r getOrder_1] s1(2)
  have "buddy_alloc s1 1 = Some (Inl NullDereference)" by simp
  with r s1(2) show ?thesis by blast
qed

text \<open>
  X3: in every reachable state \<^verbatim>\<open>buddy_alloc\<close> returns (with a block, with \<^verbatim>\<open>NULL\<close> or
  with a fault), and \<^verbatim>\<open>buddy_free\<close> of an address that was returned and is not freed
  yet returns without a fault, in a reachable state where that address is no longer
  live.
\<close>

theorem calls_return:
  assumes "reachable s live"
  shows "(\<exists>r. buddy_alloc s sz = Some r) \<and>
    (\<forall>a\<in>set live. \<exists>s'. buddy_free s a = Inr s' \<and> reachable s' (remove1 a live))"
proof
  from assms have "wf_state s" by (rule reachable_wf)
  then show "\<exists>r. buddy_alloc s sz = Some r" by (rule buddy_alloc_returns)
  show "\<forall>a\<in>set live. \<exists>s'. buddy_free s a = Inr s' \<and> reachable s' (remove1 a live)"
  proof
    fix a assume a: "a \<in> set live"
    from assms obtain cs where cs: "run fresh [] cs = Some (s, live)"
      by (auto simp: reachable_def)
    from run_Free [OF reachable_live_ok [OF assms] a] obtain s'
      where s': "run s live [Free a] = Some (s', remove1 a live)"
      by blast
    with a have "buddy_free s a = Inr s'" by (auto split: sum.splits)
    moreover from cs s' have "run fresh [] (cs @ [Free a]) = Some (s', remove1 a live)"
      by (simp add: run_append)
    then have "reachable s' (remove1 a live)" unfolding reachable_def by blast
    ultimately show "\<exists>s'. buddy_free s a = Inr s' \<and> reachable s' (remove1 a live)" by blast
  qed
qed

theorem calls_return_witness:
  "\<exists>s s'. reachable s [Arena 524288, Arena 262144, Arena 0] \<and>
     buddy_free s (Arena 262144) = Inr s' \<and> reachable s' [Arena 524288, Arena 0]"
proof -
  from example_alloc3 obtain s3 where
    "run fresh [] [Alloc 262144, Alloc 262144, Alloc 262144]
       = Some (s3, [Arena 524288, Arena 262144, Arena 0])"
    by blast
  then have r: "reachable s3 [Arena 524288, Arena 262144, Arena 0]"
    unfolding reachable_def by blast
  from calls_return [OF r, of 1] have
    "\<exists>s'. buddy_free s3 (Arena 262144) = Inr s' \<and>
       reachable s' (remove1 (Arena 262144) [Arena 524288, Arena 262144, Arena 0])"
    by simp
  with r show ?thesis by auto
qed

end
